theory Spec2Isabelle
  imports Main "HOL-Library.Word" "HOL-Library.AList" "HOL-Library.Multiset"
begin

unbundle bit_operations_syntax

section \<open>Errors and raw input\<close>

text \<open>
  Every \<^verbatim>\<open>throw\<close> of \<^verbatim>\<open>unchunker.ts\<close> and every exception the JavaScript
  runtime can raise on the modelled paths is a value of this type.
  \<^item> \<open>ChunkTooShort\<close>: \<^verbatim>\<open>Error('Invalid chunk: Too short')\<close>;
  \<^item> \<open>UnsupportedInputKind\<close>: \<^verbatim>\<open>TypeError('Cannot create chunk from type ...')\<close>;
  \<^item> \<open>NotComplete\<close>: \<^verbatim>\<open>Error('Not all chunks for this message have arrived yet.')\<close>;
  \<^item> \<open>ChunkTooLarge\<close>: \<^verbatim>\<open>Error('No chunk may be larger than the first chunk of that message.')\<close>;
  \<^item> \<open>RangeError\<close>: a \<^verbatim>\<open>DataView\<close> read or a \<^verbatim>\<open>TypedArray.set\<close> outside the buffer;
  \<^item> \<open>TypeError\<close>: a property read on \<^verbatim>\<open>undefined\<close> (\<^verbatim>\<open>this.chunks[0].data\<close> on an empty array).
\<close>

datatype error =
    ChunkTooShort
  | UnsupportedInputKind
  | NotComplete
  | ChunkTooLarge
  | RangeError
  | TypeError

type_synonym byte = "8 word"

text \<open>
  Modelled from the spec: \<^verbatim>\<open>Common.HEADER_LENGTH\<close> is declared in \<^verbatim>\<open>common.ts\<close>, which is
  not among the sources; the spec fixes the header at 9 bytes (1 byte of options, a 4-byte
  id, a 4-byte serial), which is also what the reads at offsets 0, 1 and 5 of
  \<^verbatim>\<open>readHeader\<close> need.
\<close>

definition HEADER_LENGTH :: nat where
  "HEADER_LENGTH = 9"

text \<open>
  The in-memory inputs of \<^verbatim>\<open>createChunk\<close>. An \<^verbatim>\<open>ArrayBuffer\<close> is its bytes. A
  \<^verbatim>\<open>Uint8Array\<close> is a window of \<open>byteLength\<close> bytes, starting at \<open>byteOffset\<close>, on an
  underlying \<open>buffer\<close>. \<open>OtherValue\<close> is any value that is neither of them nor a
  \<^verbatim>\<open>Blob\<close>. \<^verbatim>\<open>Blob\<close> inputs (read through a \<^verbatim>\<open>FileReader\<close>) are outside the model.
\<close>

datatype raw =
    Uint8Array (buffer: "byte list") (byteOffset: nat) (byteLength: nat)
  | ArrayBuffer "byte list"
  | OtherValue

text \<open>
  The bytes a \<^verbatim>\<open>Uint8Array\<close> shows to its user. The runtime guarantees that the window
  lies within the buffer: \<open>byteOffset + byteLength \<le> length buffer\<close>.
\<close>

definition window :: "byte list \<Rightarrow> nat \<Rightarrow> nat \<Rightarrow> byte list" where
  "window buf off len = take len (drop off buf)"

section \<open>DataView reads\<close>

text \<open>
  \<^verbatim>\<open>DataView.getUint8\<close> and \<^verbatim>\<open>DataView.getUint32\<close> (big-endian, the default), on a view
  of a whole buffer. A read that does not fit in the buffer raises \<^verbatim>\<open>RangeError\<close>.
\<close>

definition getUint8 :: "byte list \<Rightarrow> nat \<Rightarrow> error + byte" where
  "getUint8 reader off =
     (if off + 1 \<le> length reader then Inr (reader ! off) else Inl RangeError)"

definition getUint32 :: "byte list \<Rightarrow> nat \<Rightarrow> error + 32 word" where
  "getUint32 reader off =
     (if off + 4 \<le> length reader
      then Inr (push_bit 24 (ucast (reader ! off))
             OR push_bit 16 (ucast (reader ! (off + 1)))
             OR push_bit 8 (ucast (reader ! (off + 2)))
             OR ucast (reader ! (off + 3)))
      else Inl RangeError)"

section \<open>Chunk\<close>

text \<open>
  The fields of \<^verbatim>\<open>Chunk\<close> that are read anywhere (\<^verbatim>\<open>_length\<close> is only written). The
  header fields are JavaScript numbers holding the unsigned 32-bit values read, so they are
  naturals and \<^verbatim>\<open>serial + 1\<close> does not wrap. A context of \<^verbatim>\<open>undefined\<close> is \<open>None\<close>.
  The field \<^verbatim>\<open>id\<close> is \<open>chunk_id\<close> and \<^verbatim>\<open>context\<close> is \<open>chunk_context\<close> here.
\<close>

record 'ctx chunk =
  isEndOfMessage :: bool
  chunk_id :: nat
  serial :: nat
  data :: "byte list"
  chunk_context :: "'ctx option"

text \<open>\<^verbatim>\<open>Chunk.readHeader\<close>: the three header fields, in the order they are assigned.\<close>

definition readHeader :: "byte list \<Rightarrow> error + (bool \<times> nat \<times> nat)" where
  "readHeader reader =
     (case getUint8 reader 0 of
        Inl e \<Rightarrow> Inl e
      | Inr options \<Rightarrow>
          (case getUint32 reader 1 of
             Inl e \<Rightarrow> Inl e
           | Inr i \<Rightarrow>
               (case getUint32 reader 5 of
                  Inl e \<Rightarrow> Inl e
                | Inr s \<Rightarrow> Inr (options AND 1 = 1, unat i, unat s))))"

text \<open>
  \<^verbatim>\<open>Uint8ArrayChunk.getData\<close>: reads the header from the buffer, then copies
  \<^verbatim>\<open>buf.slice(HEADER_LENGTH)\<close>, which is empty when the buffer is shorter.
\<close>

definition getData :: "byte list \<Rightarrow> error + ((bool \<times> nat \<times> nat) \<times> byte list)" where
  "getData buf =
     (case readHeader buf of
        Inl e \<Rightarrow> Inl e
      | Inr h \<Rightarrow> Inr (h, drop HEADER_LENGTH buf))"

text \<open>The constructor of \<^verbatim>\<open>Chunk\<close>, as run for a \<^verbatim>\<open>Uint8ArrayChunk\<close>.\<close>

definition new_Uint8ArrayChunk ::
  "byte list \<Rightarrow> nat \<Rightarrow> 'ctx option \<Rightarrow> error + 'ctx chunk" where
  "new_Uint8ArrayChunk buf len ctx =
     (if len < HEADER_LENGTH then Inl ChunkTooShort
      else (case getData buf of
              Inl e \<Rightarrow> Inl e
            | Inr ((e, i, s), d) \<Rightarrow>
                Inr \<lparr>isEndOfMessage = e, chunk_id = i, serial = s, data = d,
                     chunk_context = ctx\<rparr>))"

fun createChunk :: "raw \<Rightarrow> 'ctx option \<Rightarrow> error + 'ctx chunk" where
  "createChunk (Uint8Array buf off len) ctx = new_Uint8ArrayChunk buf len ctx"
| "createChunk (ArrayBuffer buf) ctx = new_Uint8ArrayChunk buf (length buf) ctx"
| "createChunk OtherValue ctx = Inl UnsupportedInputKind"

section \<open>Chunk collector\<close>

text \<open>
  \<^verbatim>\<open>ChunkCollector\<close>. The clock (\<^verbatim>\<open>new Date().getTime()\<close>, milliseconds) is a parameter
  \<open>now\<close> of every operation that reads it. \<^verbatim>\<open>endArrived\<close> starts \<^verbatim>\<open>undefined\<close>, which
  every test of it treats as false; \<^verbatim>\<open>messageLength\<close> starts \<^verbatim>\<open>null\<close>, here \<open>None\<close>.
\<close>

record 'ctx collector =
  endArrived :: bool
  lastUpdate :: int
  messageLength :: "nat option"
  chunks :: "'ctx chunk list"

definition new_ChunkCollector :: "int \<Rightarrow> 'ctx collector" where
  "new_ChunkCollector now =
     \<lparr>endArrived = False, lastUpdate = now, messageLength = None, chunks = []\<rparr>"

definition hasSerial :: "'ctx collector \<Rightarrow> nat \<Rightarrow> bool" where
  "hasSerial c s = (find (\<lambda>chunk. serial chunk = s) (chunks c) \<noteq> None)"

definition addChunk :: "int \<Rightarrow> 'ctx chunk \<Rightarrow> 'ctx collector \<Rightarrow> 'ctx collector" where
  "addChunk now chunk c =
     (if hasSerial c (serial chunk) then c
      else (let c1 = c\<lparr>chunks := chunks c @ [chunk]\<rparr>;
                c2 = c1\<lparr>lastUpdate := now\<rparr>
            in if isEndOfMessage chunk
               then c2\<lparr>endArrived := True, messageLength := Some (serial chunk + 1)\<rparr>
               else c2))"

text \<open>
  \<^verbatim>\<open>this.endArrived && this.chunks.length == this.messageLength\<close>: a length never
  equals \<^verbatim>\<open>null\<close>.
\<close>

definition isComplete :: "'ctx collector \<Rightarrow> bool" where
  "isComplete c = (endArrived c \<and> messageLength c = Some (length (chunks c)))"

definition isOlderThan :: "int \<Rightarrow> int \<Rightarrow> 'ctx collector \<Rightarrow> bool" where
  "isOlderThan maxAge now c = (let age = now - lastUpdate c in age > maxAge)"

definition chunkCount :: "'ctx collector \<Rightarrow> nat" where
  "chunkCount c = length (chunks c)"

subsection \<open>Merging into a Uint8Array\<close>

text \<open>
  \<^verbatim>\<open>buf.set(src, offset)\<close> on a \<^verbatim>\<open>Uint8Array\<close>: overwrites \<open>length src\<close> bytes from
  \<open>offset\<close>, and raises \<^verbatim>\<open>RangeError\<close> when they do not fit.
\<close>

definition typedArraySet :: "byte list \<Rightarrow> byte list \<Rightarrow> nat \<Rightarrow> error + byte list" where
  "typedArraySet buf src offset =
     (if offset + length src > length buf then Inl RangeError
      else Inr (take offset buf @ src @ drop (offset + length src) buf))"

text \<open>
  The \<^verbatim>\<open>for\<close> loop of \<^verbatim>\<open>Uint8ArrayChunkCollector.mergeChunks\<close>, with its three
  variables \<open>buf\<close>, \<open>offset\<close> and \<open>contextList\<close>.
\<close>

fun mergeLoop ::
  "'ctx chunk list \<Rightarrow> nat \<Rightarrow> byte list \<Rightarrow> nat \<Rightarrow> 'ctx list \<Rightarrow>
     error + (byte list \<times> nat \<times> 'ctx list)" where
  "mergeLoop [] firstSize buf offset contextList = Inr (buf, offset, contextList)"
| "mergeLoop (chunk # rest) firstSize buf offset contextList =
     (if length (data chunk) > firstSize then Inl ChunkTooLarge
      else (case typedArraySet buf (data chunk) offset of
              Inl e \<Rightarrow> Inl e
            | Inr buf' \<Rightarrow>
                mergeLoop rest firstSize buf' (offset + length (data chunk))
                  (case chunk_context chunk of
                     None \<Rightarrow> contextList
                   | Some x \<Rightarrow> contextList @ [x])))"

text \<open>
  \<^verbatim>\<open>mergeChunks\<close>: \<^verbatim>\<open>this.chunks[0]\<close> of an empty array is \<^verbatim>\<open>undefined\<close>, whose
  \<^verbatim>\<open>data\<close> raises; a \<^verbatim>\<open>messageLength\<close> of \<^verbatim>\<open>null\<close> multiplies as 0. The buffer is
  allocated zeroed; the result is \<^verbatim>\<open>buf.slice(0, offset)\<close>. Allocation is taken to
  succeed.
\<close>

definition mergeChunks :: "'ctx collector \<Rightarrow> error + (byte list \<times> 'ctx list)" where
  "mergeChunks c =
     (case chunks c of
        [] \<Rightarrow> Inl TypeError
      | first # _ \<Rightarrow>
          (let capacity = length (data first) * (case messageLength c of None \<Rightarrow> 0 | Some n \<Rightarrow> n);
               buf = replicate capacity (0 :: byte);
               firstSize = length (data first)
           in (case mergeLoop (chunks c) firstSize buf 0 [] of
                 Inl e \<Rightarrow> Inl e
               | Inr (buf', offset, contextList) \<Rightarrow> Inr (take offset buf', contextList))))"

text \<open>
  \<^verbatim>\<open>merge\<close> sorts \<^verbatim>\<open>this.chunks\<close> in place (a stable sort on the serial) before it calls
  \<^verbatim>\<open>mergeChunks\<close>, so it returns the collector as it leaves it, beside the result.
\<close>

definition merge ::
  "'ctx collector \<Rightarrow> 'ctx collector \<times> (error + (byte list \<times> 'ctx list))" where
  "merge c =
     (if \<not> isComplete c then (c, Inl NotComplete)
      else (let c' = c\<lparr>chunks := sort_key serial (chunks c)\<rparr> in (c', mergeChunks c')))"

section \<open>Unchunker\<close>

text \<open>
  \<^verbatim>\<open>Uint8ArrayUnchunker\<close>. The \<^verbatim>\<open>Map\<close> from message id to collector (the field
  \<^verbatim>\<open>chunks\<close>, here \<open>chunks_map\<close>) is an association list in insertion order:
  \<^verbatim>\<open>has\<close>/\<^verbatim>\<open>get\<close> are \<^const>\<open>map_of\<close>, \<^verbatim>\<open>set\<close> is \<^const>\<open>AList.update\<close> (in place for
  a key that is present, at the end otherwise) and \<^verbatim>\<open>delete\<close> is \<^const>\<open>AList.delete\<close>.
  A collector is an object shared between the map and the local variable of \<^verbatim>\<open>add\<close>, so
  every mutation of it is written back to the map. \<open>onMessage\<close> says whether a listener
  is set (\<^verbatim>\<open>this.onMessage != null\<close>); the listener is taken to return normally and not to
  call back into the unchunker, and \<open>calls\<close> records its invocations in order.
\<close>

record 'ctx unchunker =
  chunks_map :: "(nat \<times> 'ctx collector) list"
  onMessage :: bool
  calls :: "(byte list \<times> 'ctx list) list"

definition new_Unchunker :: "'ctx unchunker" where
  "new_Unchunker = \<lparr>chunks_map = [], onMessage = False, calls = []\<rparr>"

definition notifyListener :: "byte list \<Rightarrow> 'ctx list \<Rightarrow> 'ctx unchunker \<Rightarrow> 'ctx unchunker" where
  "notifyListener message ctxs u =
     (if onMessage u then u\<lparr>calls := calls u @ [(message, ctxs)]\<rparr> else u)"

text \<open>
  \<^verbatim>\<open>Unchunker.add\<close>. For the in-memory inputs nothing suspends between parsing and the
  end of the call, so a call is one step; the result is the rejection of the promise
  (\<open>None\<close> when it resolves) and the unchunker after the call. The clock is read once per
  call: the reading taken by the constructor of a new collector is overwritten by the
  \<^verbatim>\<open>addChunk\<close> that follows it, which always accepts.
\<close>

definition add ::
  "raw \<Rightarrow> 'ctx option \<Rightarrow> int \<Rightarrow> 'ctx unchunker \<Rightarrow> error option \<times> 'ctx unchunker" where
  "add buf ctx now u =
     (case createChunk buf ctx of
        Inl e \<Rightarrow> (Some e, u)
      | Inr chunk \<Rightarrow>
          if (case map_of (chunks_map u) (chunk_id chunk) of
                None \<Rightarrow> False
              | Some c \<Rightarrow> hasSerial c (serial chunk))
          then (None, u)
          else if isEndOfMessage chunk \<and> serial chunk = 0
          then (let u1 = notifyListener (data chunk) (case ctx of None \<Rightarrow> [] | Some x \<Rightarrow> [x]) u
                in (None, u1\<lparr>chunks_map := AList.delete (chunk_id chunk) (chunks_map u1)\<rparr>))
          else (let collector0 = (case map_of (chunks_map u) (chunk_id chunk) of
                                    Some c \<Rightarrow> c
                                  | None \<Rightarrow> new_ChunkCollector now);
                    collector = addChunk now chunk collector0;
                    u1 = u\<lparr>chunks_map := AList.update (chunk_id chunk) collector (chunks_map u)\<rparr>
                in if isComplete collector
                   then (case merge collector of
                           (collector', Inl e) \<Rightarrow>
                             (Some e,
                              u1\<lparr>chunks_map :=
                                    AList.update (chunk_id chunk) collector' (chunks_map u1)\<rparr>)
                         | (collector', Inr (message, ctxs)) \<Rightarrow>
                             (let u2 = notifyListener message ctxs u1
                              in (None,
                                  u2\<lparr>chunks_map :=
                                        AList.delete (chunk_id chunk) (chunks_map u2)\<rparr>)))
                   else (None, u1)))"

text \<open>A sequence of \<^verbatim>\<open>add\<close> calls, each awaited: the results in order and the final state.\<close>

fun add_all ::
  "(raw \<times> 'ctx option \<times> int) list \<Rightarrow> 'ctx unchunker \<Rightarrow> error option list \<times> 'ctx unchunker" where
  "add_all [] u = ([], u)"
| "add_all ((buf, ctx, now) # rest) u =
     (case add buf ctx now u of
        (r, u') \<Rightarrow> (case add_all rest u' of (rs, u'') \<Rightarrow> (r # rs, u'')))"

text \<open>
  \<^verbatim>\<open>Unchunker.gc\<close>: the \<^verbatim>\<open>for ... of\<close> loop visits the entries of the map in order;
  deleting the entry being visited does not disturb the iteration.
\<close>

fun gc_loop ::
  "int \<Rightarrow> int \<Rightarrow> (nat \<times> 'ctx collector) list \<Rightarrow> nat \<times> (nat \<times> 'ctx collector) list \<Rightarrow>
     nat \<times> (nat \<times> 'ctx collector) list" where
  "gc_loop maxAge now [] acc = acc"
| "gc_loop maxAge now ((msgId, collector) # rest) (removedItems, m) =
     (if isOlderThan maxAge now collector
      then gc_loop maxAge now rest (removedItems + chunkCount collector, AList.delete msgId m)
      else gc_loop maxAge now rest (removedItems, m))"

definition gc :: "int \<Rightarrow> int \<Rightarrow> 'ctx unchunker \<Rightarrow> nat \<times> 'ctx unchunker" where
  "gc maxAge now u =
     (case gc_loop maxAge now (chunks_map u) (0, chunks_map u) of
        (removedItems, m) \<Rightarrow> (removedItems, u\<lparr>chunks_map := m\<rparr>))"

section \<open>Specification-side notions\<close>

text \<open>
  The spec's words for the header fields: the unsigned 32-bit number whose four bytes, most
  significant first, are at offsets \<open>off\<close> to \<open>off + 3\<close>. The code's \<^const>\<open>getUint32\<close> is
  compared with it below.
\<close>

definition big_endian_uint32 :: "byte list \<Rightarrow> nat \<Rightarrow> nat" where
  "big_endian_uint32 bs off =
     unat (bs ! off) * 2 ^ 24 + unat (bs ! (off + 1)) * 2 ^ 16
       + unat (bs ! (off + 2)) * 2 ^ 8 + unat (bs ! (off + 3))"

text \<open>
  The states a collector can be in: those reached from a new collector by a sequence of
  \<^verbatim>\<open>addChunk\<close> calls, each at its own time.
\<close>

definition collect :: "(int \<times> 'ctx chunk) list \<Rightarrow> 'ctx collector \<Rightarrow> 'ctx collector" where
  "collect xs c = fold (\<lambda>(now, chunk). addChunk now chunk) xs c"

text \<open>The end-of-message chunks a collector holds, in the order they were accepted.\<close>

definition end_chunks :: "'ctx collector \<Rightarrow> 'ctx chunk list" where
  "end_chunks c = filter isEndOfMessage (chunks c)"

text \<open>
  What holds of every collector so reached: serials are stored once, \<open>endArrived\<close> says
  that an end-of-message chunk is stored, and \<open>messageLength\<close> is one more than the serial
  of the end-of-message chunk accepted last.
\<close>

definition collector_inv :: "'ctx collector \<Rightarrow> bool" where
  "collector_inv c =
     (distinct (map serial (chunks c))
      \<and> endArrived c = (end_chunks c \<noteq> [])
      \<and> messageLength c =
          (if end_chunks c = [] then None else Some (serial (last (end_chunks c)) + 1)))"

text \<open>
  The chunks of one message: id \<open>I\<close>, \<open>N\<close> chunks with serials \<open>0\<close> to \<open>N - 1\<close>, the
  end-of-message flag on serial \<open>N - 1\<close> only, and \<open>payload s\<close> the payload of serial \<open>s\<close>.
  An input of \<^verbatim>\<open>add\<close> belongs to the message when it parses to such a chunk;
  \<open>input_serial\<close> is the serial it parses to.
\<close>

definition chunk_of_message :: "nat \<Rightarrow> nat \<Rightarrow> (nat \<Rightarrow> byte list) \<Rightarrow> 'ctx chunk \<Rightarrow> bool" where
  "chunk_of_message I N payload ch =
     (chunk_id ch = I \<and> serial ch < N \<and> isEndOfMessage ch = (serial ch + 1 = N)
      \<and> data ch = payload (serial ch))"

definition input_of_message ::
  "nat \<Rightarrow> nat \<Rightarrow> (nat \<Rightarrow> byte list) \<Rightarrow> raw \<times> 'ctx option \<times> int \<Rightarrow> bool" where
  "input_of_message I N payload inp =
     (case inp of (buf, ctx, now) \<Rightarrow>
        (case createChunk buf ctx of
           Inl e \<Rightarrow> False
         | Inr ch \<Rightarrow> chunk_of_message I N payload ch))"

definition input_serial :: "raw \<times> 'ctx option \<times> int \<Rightarrow> nat" where
  "input_serial inp =
     (case inp of (buf, ctx, now) \<Rightarrow>
        (case createChunk buf ctx of
           Inl e \<Rightarrow> 0
         | Inr ch \<Rightarrow> serial ch))"

text \<open>The message the chunks make: the payloads in serial order.\<close>

definition message_of :: "nat \<Rightarrow> (nat \<Rightarrow> byte list) \<Rightarrow> byte list" where
  "message_of N payload = concat (map payload [0..<N])"

text \<open>
  What the registry does with the serials of such a message, seen from outside: \<open>S\<close> is the
  set of serials the collector of the id holds (empty when there is none) and \<open>k\<close> counts the
  deliveries.
\<close>

definition deliver_step :: "nat \<Rightarrow> nat \<Rightarrow> nat set \<times> nat \<Rightarrow> nat set \<times> nat" where
  "deliver_step N s =
     (\<lambda>(S, k). if s \<in> S then (S, k)
              else if insert s S = {0..<N} then ({}, k + 1)
              else (insert s S, k))"

text \<open>A collector that holds exactly the serials \<open>S\<close> of the message.\<close>

definition collecting ::
  "nat \<Rightarrow> nat \<Rightarrow> (nat \<Rightarrow> byte list) \<Rightarrow> nat set \<Rightarrow> 'ctx collector \<Rightarrow> bool" where
  "collecting I N payload S c =
     (serial ` set (chunks c) = S
      \<and> distinct (map serial (chunks c))
      \<and> (\<forall>ch\<in>set (chunks c). chunk_of_message I N payload ch)
      \<and> endArrived c = (N - 1 \<in> S)
      \<and> messageLength c = (if N - 1 \<in> S then Some N else None))"

text \<open>
  An unchunker \<open>u\<close> reached from \<open>u0\<close> (which has no collector for \<open>I\<close>) by inputs of the
  message only: the listener has been invoked \<open>k\<close> more times, each time with the message,
  and the registry is that of \<open>u0\<close>, with a collector for \<open>I\<close> when \<open>S\<close> is not empty.
\<close>

definition related ::
  "nat \<Rightarrow> nat \<Rightarrow> (nat \<Rightarrow> byte list) \<Rightarrow> 'ctx unchunker \<Rightarrow> nat set \<times> nat \<Rightarrow> 'ctx unchunker
     \<Rightarrow> bool" where
  "related I N payload u0 Sk u =
     (case Sk of (S, k) \<Rightarrow>
        onMessage u
        \<and> (\<exists>xs. calls u = calls u0 @ xs \<and> length xs = k
                 \<and> (\<forall>x\<in>set xs. fst x = message_of N payload))
        \<and> S \<subseteq> {0..<N} \<and> S \<noteq> {0..<N}
        \<and> (if S = {} then chunks_map u = chunks_map u0
            else (\<exists>c. chunks_map u = AList.update I c (chunks_map u0)
                      \<and> collecting I N payload S c)))"

section \<open>Header decoding\<close>

lemma or_add_nat:
  fixes x y :: nat
  assumes "x < 2 ^ n"
  shows "push_bit n y OR x = y * 2 ^ n + x"
proof -
  from assms have tx: "take_bit n x = x" by (rule take_bit_nat_eq_self)
  have "push_bit n y + take_bit n x = push_bit n y OR take_bit n x"
    by (rule disjunctive_add) (auto simp: bit_simps)
  then show ?thesis by (simp add: tx push_bit_eq_mult)
qed

lemma byte_less: "unat (a :: byte) < 256"
proof -
  have "unat a < 2 ^ LENGTH(8)" by (rule unsigned_less)
  then show ?thesis by simp
qed

lemma unat_ucast_8_32: "unat (ucast (a :: byte) :: 32 word) = unat a"
proof -
  have "unat a < 2 ^ 32" using byte_less [of a] by simp
  then have "take_bit 32 (unat a) = unat a" by (rule take_bit_nat_eq_self)
  moreover have "unat (ucast a :: 32 word) = take_bit LENGTH(32) (unat a)"
    by (rule unsigned_ucast_eq)
  ultimately show ?thesis by simp
qed

lemma unat_push_ucast:
  assumes "n \<le> 24"
  shows "unat (push_bit n (ucast (a :: byte)) :: 32 word) = push_bit n (unat a)"
proof -
  have a: "unat a < 2 ^ 8" using byte_less [of a] by simp
  have "unat a * 2 ^ n < 2 ^ 8 * 2 ^ n" using a by simp
  also have "\<dots> = (2::nat) ^ (8 + n)" by (simp add: power_add)
  also have "\<dots> \<le> 2 ^ 32" using assms by (intro power_increasing) simp_all
  finally have "push_bit n (unat a) < 2 ^ 32" by (simp add: push_bit_eq_mult)
  then have "take_bit 32 (push_bit n (unat a)) = push_bit n (unat a)"
    by (rule take_bit_nat_eq_self)
  moreover have "unat (push_bit n (ucast a) :: 32 word)
      = take_bit LENGTH(32) (push_bit n (unat (ucast a :: 32 word)))"
    by (rule unsigned_push_bit_eq)
  ultimately show ?thesis by (simp only: unat_ucast_8_32) simp
qed

lemma unat_be32:
  fixes a b c d :: byte
  shows "unat (push_bit 24 (ucast a) OR push_bit 16 (ucast b) OR push_bit 8 (ucast c)
               OR ucast d :: 32 word)
       = unat a * 2 ^ 24 + unat b * 2 ^ 16 + unat c * 2 ^ 8 + unat d"
proof -
  have b: "unat b < 256" and c: "unat c < 256" and d: "unat d < 256"
    by (rule byte_less)+
  have p24: "unat (push_bit 24 (ucast a) :: 32 word) = push_bit 24 (unat a)"
    by (rule unat_push_ucast) simp
  have p16: "unat (push_bit 16 (ucast b) :: 32 word) = push_bit 16 (unat b)"
    by (rule unat_push_ucast) simp
  have p8: "unat (push_bit 8 (ucast c) :: 32 word) = push_bit 8 (unat c)"
    by (rule unat_push_ucast) simp
  have 1: "push_bit 8 (unat c) OR unat d = unat c * 2 ^ 8 + unat d"
    using d by (intro or_add_nat) simp
  have 2: "push_bit 16 (unat b) OR (unat c * 2 ^ 8 + unat d)
         = unat b * 2 ^ 16 + (unat c * 2 ^ 8 + unat d)"
    using c d by (intro or_add_nat) simp
  have 3: "push_bit 24 (unat a) OR (unat b * 2 ^ 16 + (unat c * 2 ^ 8 + unat d))
         = unat a * 2 ^ 24 + (unat b * 2 ^ 16 + (unat c * 2 ^ 8 + unat d))"
    using b c d by (intro or_add_nat) simp
  have "unat (push_bit 24 (ucast a) OR push_bit 16 (ucast b) OR push_bit 8 (ucast c)
              OR ucast d :: 32 word)
      = push_bit 24 (unat a) OR push_bit 16 (unat b) OR push_bit 8 (unat c) OR unat d"
    by (simp only: unsigned_or_eq p24 p16 p8 unat_ucast_8_32)
  also have "\<dots> = unat a * 2 ^ 24 + (unat b * 2 ^ 16 + (unat c * 2 ^ 8 + unat d))"
    by (simp only: 1 2 3)
  finally show ?thesis by (simp only: add.assoc)
qed

lemma getUint32_big_endian:
  "off + 4 \<le> length bs \<Longrightarrow>
     getUint32 bs off = Inr w \<Longrightarrow> unat w = big_endian_uint32 bs off"
  by (auto simp: getUint32_def big_endian_uint32_def unat_be32)

lemma options_bit0: "((x :: byte) AND 1 = 1) = bit x 0"
  by (simp add: bit_iff_and_drop_bit_eq_1)

lemma readHeader_eq:
  assumes "9 \<le> length bs"
  shows "readHeader bs = Inr (bit (bs ! 0) 0, big_endian_uint32 bs 1, big_endian_uint32 bs 5)"
proof -
  from assms have u8: "getUint8 bs 0 = Inr (bs ! 0)"
    by (simp add: getUint8_def)
  from assms obtain i where i: "getUint32 bs 1 = Inr i"
    by (simp add: getUint32_def)
  from assms obtain s where s: "getUint32 bs 5 = Inr s"
    by (simp add: getUint32_def)
  from assms i have "unat i = big_endian_uint32 bs 1"
    by (intro getUint32_big_endian) simp_all
  moreover from assms s have "unat s = big_endian_uint32 bs 5"
    by (intro getUint32_big_endian) simp_all
  ultimately show ?thesis
    unfolding readHeader_def u8 i s by (simp add: options_bit0)
qed

lemma new_Uint8ArrayChunk_eq:
  assumes "9 \<le> length buf"
  shows "new_Uint8ArrayChunk buf len ctx =
           (if len < 9 then Inl ChunkTooShort
            else Inr \<lparr>isEndOfMessage = bit (buf ! 0) 0,
                      chunk_id = big_endian_uint32 buf 1,
                      serial = big_endian_uint32 buf 5,
                      data = drop 9 buf,
                      chunk_context = ctx\<rparr>)"
  by (simp add: new_Uint8ArrayChunk_def getData_def readHeader_eq [OF assms] HEADER_LENGTH_def)

lemma new_Uint8ArrayChunk_short:
  "len < 9 \<Longrightarrow> new_Uint8ArrayChunk buf len ctx = Inl ChunkTooShort"
  by (simp add: new_Uint8ArrayChunk_def HEADER_LENGTH_def)

lemma big_endian_uint32_update0:
  "0 < off \<Longrightarrow> big_endian_uint32 (bs[0 := b]) off = big_endian_uint32 bs off"
  by (simp add: big_endian_uint32_def)

text \<open>
  C8. Decoding a raw chunk \<open>bs\<close>, given as an \<^verbatim>\<open>ArrayBuffer\<close> or as a
  \<^verbatim>\<open>Uint8Array\<close> covering its whole buffer: with fewer than 9 bytes it fails with
  \<open>ChunkTooShort\<close>; otherwise the end-of-message flag is bit 0 of byte 0, the id is the
  big-endian unsigned 32-bit number at bytes 1 to 4, the serial the one at bytes 5 to 8, and
  the payload is the rest. The other bits of byte 0 are ignored: replacing byte 0 by any
  byte with the same bit 0 gives the same chunk.
\<close>

theorem C8_header_decoding:
  "createChunk (ArrayBuffer bs) ctx =
     (if length bs < 9 then Inl ChunkTooShort
      else Inr \<lparr>isEndOfMessage = bit (bs ! 0) 0,
                chunk_id = big_endian_uint32 bs 1,
                serial = big_endian_uint32 bs 5,
                data = drop 9 bs,
                chunk_context = ctx\<rparr>)
   \<and> createChunk (Uint8Array bs 0 (length bs)) ctx = createChunk (ArrayBuffer bs) ctx
   \<and> (bit b 0 = bit (bs ! 0) 0 \<longrightarrow>
        createChunk (ArrayBuffer (bs[0 := b])) ctx = createChunk (ArrayBuffer bs) ctx)"
proof (cases "length bs < 9")
  case True
  then show ?thesis by (simp add: new_Uint8ArrayChunk_short)
next
  case False
  then have len: "9 \<le> length bs" by simp
  then have len': "9 \<le> length (bs[0 := b])" by simp
  from len have pos: "0 < length bs" by linarith
  have "bit b 0 = bit (bs ! 0) 0 \<Longrightarrow>
          new_Uint8ArrayChunk (bs[0 := b]) (length bs) ctx = new_Uint8ArrayChunk bs (length bs) ctx"
    using pos by (simp add: new_Uint8ArrayChunk_eq [OF len] new_Uint8ArrayChunk_eq [OF len']
        big_endian_uint32_update0)
  then show ?thesis
    using len by (simp add: new_Uint8ArrayChunk_eq [OF len])
qed

theorem C8_header_decoding_witness:
  "createChunk (ArrayBuffer [3, 0, 0, 0, 42, 0, 0, 1, 5, 170]) (None :: unit option)
     = Inr \<lparr>isEndOfMessage = True, chunk_id = 42, serial = 261, data = [170],
            chunk_context = None\<rparr>
   \<and> createChunk (ArrayBuffer [1, 0, 0, 0, 42, 0, 0, 1, 5, 170]) (None :: unit option)
     = createChunk (ArrayBuffer [3, 0, 0, 0, 42, 0, 0, 1, 5, 170]) None
   \<and> createChunk (ArrayBuffer [1, 0, 0, 0, 42, 0, 0, 1]) (None :: unit option)
     = Inl ChunkTooShort"
  using C8_header_decoding [of "[3, 0, 0, 0, 42, 0, 0, 1, 5, 170]" "None :: unit option" 1]
    C8_header_decoding [of "[1, 0, 0, 0, 42, 0, 0, 1]" "None :: unit option" 0]
  by (simp add: big_endian_uint32_def)

text \<open>
  C10. For a \<^verbatim>\<open>Uint8Array\<close> (a window of \<open>len\<close> bytes at offset \<open>off\<close> of \<open>buf\<close>) the
  length test is on the window's \<open>len\<close>, but the header is read from offset 0 of the
  underlying buffer and the payload is the buffer from byte 9 to its end: the chunk is the
  one the whole buffer gives. So when the window does not cover the buffer, the payload has
  more bytes than the window holds after its header, and when the window does not start at
  offset 0, byte 0 of the buffer, which decides the flag, is not a byte of the window.
\<close>

theorem C10_view_reads_underlying_buffer:
  assumes "off + len \<le> length buf"
  shows "createChunk (Uint8Array buf off len) ctx =
           (if len < 9 then Inl ChunkTooShort
            else Inr \<lparr>isEndOfMessage = bit (buf ! 0) 0,
                      chunk_id = big_endian_uint32 buf 1,
                      serial = big_endian_uint32 buf 5,
                      data = drop 9 buf,
                      chunk_context = ctx\<rparr>)
       \<and> (9 \<le> len \<longrightarrow>
            createChunk (Uint8Array buf off len) ctx = createChunk (ArrayBuffer buf) ctx)
       \<and> (9 \<le> len \<and> (0 < off \<or> len < length buf) \<longrightarrow>
            length (drop 9 (window buf off len)) < length (drop 9 buf))"
proof (cases "len < 9")
  case True
  then show ?thesis by (simp add: new_Uint8ArrayChunk_short)
next
  case False
  with assms have len: "9 \<le> length buf" by simp
  from False assms show ?thesis
    by (auto simp: new_Uint8ArrayChunk_eq [OF len] window_def)
qed

theorem C10_view_reads_underlying_buffer_witness:
  "createChunk (Uint8Array [1, 0, 0, 0, 7, 0, 0, 0, 0, 0, 0, 0, 0, 9, 0, 0, 0, 2, 5, 6] 9 11)
       (None :: unit option)
     = Inr \<lparr>isEndOfMessage = True, chunk_id = 7, serial = 0,
            data = [0, 0, 0, 0, 9, 0, 0, 0, 2, 5, 6], chunk_context = None\<rparr>
   \<and> createChunk
       (ArrayBuffer (window [1, 0, 0, 0, 7, 0, 0, 0, 0, 0, 0, 0, 0, 9, 0, 0, 0, 2, 5, 6] 9 11))
       (None :: unit option)
     = Inr \<lparr>isEndOfMessage = False, chunk_id = 9, serial = 2, data = [5, 6],
            chunk_context = None\<rparr>"
proof -
  have h: "(9 :: nat) + 11
             \<le> length [1, 0, 0, 0, 7, 0, 0, 0, 0, 0, 0, 0, 0, 9, 0, 0, 0, 2, 5, 6 :: byte]"
    by simp
  have w: "window [1, 0, 0, 0, 7, 0, 0, 0, 0, 0, 0, 0, 0, 9, 0, 0, 0, 2, 5, 6 :: byte] 9 11
             = [0, 0, 0, 0, 9, 0, 0, 0, 2, 5, 6]"
    by (simp add: window_def)
  have "createChunk (ArrayBuffer [0, 0, 0, 0, 9, 0, 0, 0, 2, 5, 6]) (None :: unit option)
          = Inr \<lparr>isEndOfMessage = False, chunk_id = 9, serial = 2, data = [5, 6],
                 chunk_context = None\<rparr>"
    by (simp add: new_Uint8ArrayChunk_eq big_endian_uint32_def)
  then show ?thesis
    using C10_view_reads_underlying_buffer [OF h, of "None :: unit option"]
    by (simp add: big_endian_uint32_def w)
qed

section \<open>Merging\<close>

lemma hasSerial_iff: "hasSerial c s \<longleftrightarrow> s \<in> serial ` set (chunks c)"
  by (auto simp: hasSerial_def find_None_iff)

lemma typedArraySet_fits:
  "offset + length src \<le> length buf \<Longrightarrow>
     typedArraySet buf src offset = Inr (take offset buf @ src @ drop (offset + length src) buf)"
  by (simp add: typedArraySet_def)

lemma length_concat_data_le:
  "\<forall>ch\<in>set xs. length (data ch) \<le> fs \<Longrightarrow> length (concat (map data xs)) \<le> fs * length xs"
  by (induction xs) (auto simp: add_mono)

lemma mergeLoop_eq:
  assumes "off + fs * length xs \<le> length buf"
  shows "mergeLoop xs fs buf off ctxs =
           (if \<forall>ch\<in>set xs. length (data ch) \<le> fs
            then Inr (take off buf @ concat (map data xs)
                        @ drop (off + length (concat (map data xs))) buf,
                      off + length (concat (map data xs)),
                      ctxs @ List.map_filter chunk_context xs)
            else Inl ChunkTooLarge)"
  using assms
proof (induction xs arbitrary: buf off ctxs)
  case Nil
  then show ?case by (simp add: map_filter_simps)
next
  case (Cons x xs)
  show ?case
  proof (cases "length (data x) \<le> fs")
    case False
    then show ?thesis by simp
  next
    case True
    let ?buf' = "take off buf @ data x @ drop (off + length (data x)) buf"
    from True Cons.prems have fit: "off + length (data x) \<le> length buf"
      by simp
    then have set: "typedArraySet buf (data x) off = Inr ?buf'"
      by (rule typedArraySet_fits)
    from fit have len': "length ?buf' = length buf" by simp
    from True Cons.prems have room: "(off + length (data x)) + fs * length xs \<le> length ?buf'"
      unfolding len' by simp
    from fit have tk: "take (off + length (data x)) ?buf' = take off buf @ data x"
      by simp
    from fit have dr: "\<And>k. drop (off + length (data x) + k) ?buf'
                         = drop (off + length (data x) + k) buf"
      by (simp add: add.commute)
    have step: "mergeLoop (x # xs) fs buf off ctxs
                  = mergeLoop xs fs ?buf' (off + length (data x))
                      (case chunk_context x of None \<Rightarrow> ctxs | Some y \<Rightarrow> ctxs @ [y])"
      using True by (simp add: set)
    show ?thesis
      unfolding step Cons.IH [OF room] tk dr
      using True by (simp add: map_filter_simps add.assoc split: option.split)
  qed
qed

lemma mergeChunks_eq:
  assumes "messageLength c = Some (length (chunks c))" and "chunks c \<noteq> []"
  shows "mergeChunks c =
           (if \<forall>ch\<in>set (chunks c). length (data ch) \<le> length (data (hd (chunks c)))
            then Inr (concat (map data (chunks c)), List.map_filter chunk_context (chunks c))
            else Inl ChunkTooLarge)"
proof -
  from assms(2) obtain first rest where ch: "chunks c = first # rest"
    by (cases "chunks c") auto
  let ?fs = "length (data first)"
  let ?buf = "replicate (?fs * length (chunks c)) (0 :: byte)"
  have room: "0 + ?fs * length (chunks c) \<le> length ?buf" by simp
  have cap: "length (data first) * (case messageLength c of None \<Rightarrow> 0 | Some n \<Rightarrow> n)
               = ?fs * length (chunks c)"
    by (simp add: assms(1))
  have "mergeChunks c =
          (case mergeLoop (chunks c) ?fs ?buf 0 [] of
             Inl e \<Rightarrow> Inl e
           | Inr (buf', offset, contextList) \<Rightarrow> Inr (take offset buf', contextList))"
    unfolding mergeChunks_def ch list.case Let_def cap [unfolded ch] ..
  then show ?thesis
    unfolding mergeLoop_eq [OF room] by (simp add: ch)
qed

lemma merge_eq:
  assumes "isComplete c" and "chunks c \<noteq> []"
  shows "merge c =
           (c\<lparr>chunks := sort_key serial (chunks c)\<rparr>,
            if \<forall>ch\<in>set (chunks c).
                 length (data ch) \<le> length (data (hd (sort_key serial (chunks c))))
            then Inr (concat (map data (sort_key serial (chunks c))),
                      List.map_filter chunk_context (sort_key serial (chunks c)))
            else Inl ChunkTooLarge)"
proof -
  let ?c' = "c\<lparr>chunks := sort_key serial (chunks c)\<rparr>"
  from assms have m: "messageLength ?c' = Some (length (chunks ?c'))"
    by (simp add: isComplete_def)
  have "chunks c = []" if a: "sort_key serial (chunks c) = []"
  proof -
    have "set (chunks c) = set (sort_key serial (chunks c))" by simp
    also have "\<dots> = {}" unfolding a by simp
    finally show ?thesis by simp
  qed
  with assms(2) have ne: "chunks ?c' \<noteq> []"
    by auto
  show ?thesis
    using assms(1) by (simp add: merge_def Let_def mergeChunks_eq [OF m ne])
qed

section \<open>Collector states\<close>

lemma addChunk_duplicate: "hasSerial c (serial chunk) \<Longrightarrow> addChunk now chunk c = c"
  by (simp add: addChunk_def)

lemma chunks_addChunk:
  "chunks (addChunk now chunk c)
     = (if hasSerial c (serial chunk) then chunks c else chunks c @ [chunk])"
  by (simp add: addChunk_def Let_def)

lemma endArrived_addChunk:
  "endArrived (addChunk now chunk c)
     = (if hasSerial c (serial chunk) then endArrived c
        else (endArrived c \<or> isEndOfMessage chunk))"
  by (simp add: addChunk_def Let_def)

lemma messageLength_addChunk:
  "messageLength (addChunk now chunk c)
     = (if \<not> hasSerial c (serial chunk) \<and> isEndOfMessage chunk then Some (serial chunk + 1)
        else messageLength c)"
  by (simp add: addChunk_def Let_def)

lemma lastUpdate_addChunk:
  "lastUpdate (addChunk now chunk c)
     = (if hasSerial c (serial chunk) then lastUpdate c else now)"
  by (simp add: addChunk_def Let_def)

lemma collector_inv_new: "collector_inv (new_ChunkCollector now)"
  by (simp add: collector_inv_def new_ChunkCollector_def end_chunks_def)

lemma collector_inv_addChunk:
  assumes "collector_inv c"
  shows "collector_inv (addChunk now chunk c)"
proof (cases "hasSerial c (serial chunk)")
  case True
  with assms show ?thesis by (simp add: addChunk_duplicate)
next
  case False
  then have new: "serial chunk \<notin> serial ` set (chunks c)"
    by (simp add: hasSerial_iff)
  from assms new False show ?thesis
    by (auto simp: collector_inv_def end_chunks_def chunks_addChunk endArrived_addChunk
        messageLength_addChunk)
qed

lemma collector_inv_collect: "collector_inv c \<Longrightarrow> collector_inv (collect xs c)"
proof (induction xs arbitrary: c)
  case Nil
  then show ?case by (simp add: collect_def)
next
  case (Cons x xs)
  obtain now chunk where x: "x = (now, chunk)" by (cases x)
  have "collect (x # xs) c = collect xs (addChunk now chunk c)"
    by (simp add: collect_def x)
  with Cons show ?case by (simp add: collector_inv_addChunk)
qed

lemma isComplete_inv:
  assumes "collector_inv c"
  shows "isComplete c \<longleftrightarrow>
           end_chunks c \<noteq> [] \<and> length (chunks c) = serial (last (end_chunks c)) + 1"
  using assms by (auto simp: collector_inv_def isComplete_def)

text \<open>
  C4. \<open>isComplete\<close> is the conjunction of the flag and of the equality of the number of
  stored chunks with \<open>messageLength\<close>; accepting an end-of-message chunk sets the flag and
  sets \<open>messageLength\<close> to its serial plus one. Hence in every state reached from a new
  collector, \<open>isComplete\<close> holds exactly when an end-of-message chunk is stored and the
  number of stored chunks is one more than the serial of the end-of-message chunk accepted
  last. This is a count, not a coverage test: after accepting serial 5 and then the
  end-of-message chunk of serial 1 the collector is complete, and holds no serial 0.
\<close>

theorem C4_isComplete_cardinality:
  fixes c :: "'ctx collector" and xs :: "(int \<times> 'ctx chunk) list"
  shows
  "(isComplete c \<longleftrightarrow> endArrived c \<and> messageLength c = Some (length (chunks c)))
   \<and> (\<not> hasSerial c (serial chunk) \<and> isEndOfMessage chunk \<longrightarrow>
        endArrived (addChunk now chunk c)
        \<and> messageLength (addChunk now chunk c) = Some (serial chunk + 1))
   \<and> (let r = collect xs (new_ChunkCollector t0) in
        isComplete r \<longleftrightarrow>
          end_chunks r \<noteq> [] \<and> length (chunks r) = serial (last (end_chunks r)) + 1)
   \<and> (let r = collect
                [(t0, \<lparr>isEndOfMessage = False, chunk_id = 7, serial = 5, data = [],
                       chunk_context = None :: 'ctx option\<rparr>),
                 (t0, \<lparr>isEndOfMessage = True, chunk_id = 7, serial = 1, data = [],
                       chunk_context = None\<rparr>)]
                (new_ChunkCollector t0) in
        isComplete r \<and> \<not> hasSerial r 0)"
proof -
  have "collector_inv (collect xs (new_ChunkCollector t0 :: 'ctx collector))"
    by (intro collector_inv_collect collector_inv_new)
  then have 3: "let r = collect xs (new_ChunkCollector t0 :: 'ctx collector) in
        isComplete r \<longleftrightarrow>
          end_chunks r \<noteq> [] \<and> length (chunks r) = serial (last (end_chunks r)) + 1"
    by (simp add: isComplete_inv Let_def)
  have 4: "let r = collect
                [(t0, \<lparr>isEndOfMessage = False, chunk_id = 7, serial = 5, data = [],
                       chunk_context = None :: 'ctx option\<rparr>),
                 (t0, \<lparr>isEndOfMessage = True, chunk_id = 7, serial = 1, data = [],
                       chunk_context = None\<rparr>)]
                (new_ChunkCollector t0) in
        isComplete r \<and> \<not> hasSerial r 0"
    by (simp add: collect_def addChunk_def hasSerial_def new_ChunkCollector_def isComplete_def
        Let_def)
  have 1: "isComplete c \<longleftrightarrow> endArrived c \<and> messageLength c = Some (length (chunks c))"
    by (simp add: isComplete_def)
  have 2: "\<not> hasSerial c (serial chunk) \<and> isEndOfMessage chunk \<longrightarrow>
        endArrived (addChunk now chunk c)
        \<and> messageLength (addChunk now chunk c) = Some (serial chunk + 1)"
    by (simp add: endArrived_addChunk messageLength_addChunk)
  from 1 2 3 4 show ?thesis by blast
qed

theorem C4_isComplete_cardinality_witness:
  "messageLength
     (addChunk 3 \<lparr>isEndOfMessage = True, chunk_id = 7, serial = 1, data = [],
                   chunk_context = None :: unit option\<rparr> (new_ChunkCollector 0)) = Some 2
   \<and> \<not> isComplete
         (collect [(3, \<lparr>isEndOfMessage = True, chunk_id = 7, serial = 1, data = [],
                         chunk_context = None :: unit option\<rparr>)] (new_ChunkCollector 0))
   \<and> isComplete
         (collect [(3, \<lparr>isEndOfMessage = True, chunk_id = 7, serial = 1, data = [],
                         chunk_context = None :: unit option\<rparr>),
                   (4, \<lparr>isEndOfMessage = False, chunk_id = 7, serial = 0, data = [],
                         chunk_context = None\<rparr>)] (new_ChunkCollector 0))"
  using
    C4_isComplete_cardinality [of "new_ChunkCollector 0"
      "\<lparr>isEndOfMessage = True, chunk_id = 7, serial = 1, data = [],
         chunk_context = None :: unit option\<rparr>" 3
      "[(3, \<lparr>isEndOfMessage = True, chunk_id = 7, serial = 1, data = [],
               chunk_context = None :: unit option\<rparr>)]" 0]
    C4_isComplete_cardinality [of "new_ChunkCollector 0"
      "\<lparr>isEndOfMessage = True, chunk_id = 7, serial = 1, data = [],
         chunk_context = None :: unit option\<rparr>" 3
      "[(3, \<lparr>isEndOfMessage = True, chunk_id = 7, serial = 1, data = [],
               chunk_context = None :: unit option\<rparr>),
        (4, \<lparr>isEndOfMessage = False, chunk_id = 7, serial = 0, data = [],
               chunk_context = None\<rparr>)]" 0]
  by (simp add: collect_def addChunk_def hasSerial_def new_ChunkCollector_def end_chunks_def
      Let_def)

section \<open>Duplicate chunks\<close>

lemma add_parse_error: "createChunk buf ctx = Inl e \<Longrightarrow> add buf ctx now u = (Some e, u)"
  by (simp add: add_def)

lemma add_duplicate:
  assumes "createChunk buf ctx = Inr chunk"
    and "map_of (chunks_map u) (chunk_id chunk) = Some c"
    and "hasSerial c (serial chunk)"
  shows "add buf ctx now u = (None, u)"
  using assms by (simp add: add_def)

text \<open>
  C7. When the collector already stores a chunk with the serial of \<open>chunk\<close>,
  \<^verbatim>\<open>addChunk\<close> leaves the collector as it is: the stored chunks, \<open>endArrived\<close>,
  \<open>messageLength\<close> and \<open>lastUpdate\<close> are unchanged, and so is the result of \<^verbatim>\<open>merge\<close>
  after any further sequence of \<^verbatim>\<open>addChunk\<close> calls. \<^verbatim>\<open>Unchunker.add\<close> does the same
  test first and returns with the unchunker unchanged.
\<close>

theorem C7_duplicate_serial_noop:
  assumes "stored \<in> set (chunks c)" and "serial chunk = serial stored"
  shows "addChunk now chunk c = c
       \<and> chunks (addChunk now chunk c) = chunks c
       \<and> endArrived (addChunk now chunk c) = endArrived c
       \<and> messageLength (addChunk now chunk c) = messageLength c
       \<and> lastUpdate (addChunk now chunk c) = lastUpdate c
       \<and> merge (collect rest (addChunk now chunk c)) = merge (collect rest c)
       \<and> (createChunk buf ctx = Inr chunk \<and> map_of (chunks_map u) (chunk_id chunk) = Some c
            \<longrightarrow> add buf ctx now u = (None, u))"
proof -
  from assms have dup: "hasSerial c (serial chunk)"
    by (auto simp: hasSerial_iff)
  then have same: "addChunk now chunk c = c"
    by (rule addChunk_duplicate)
  from dup show ?thesis
    unfolding same by (simp add: add_duplicate)
qed

theorem C7_duplicate_serial_noop_witness:
  "addChunk 5 \<lparr>isEndOfMessage = False, chunk_id = 7, serial = 0, data = [9],
                 chunk_context = None :: unit option\<rparr>
     \<lparr>endArrived = False, lastUpdate = 1, messageLength = None,
      chunks = [\<lparr>isEndOfMessage = False, chunk_id = 7, serial = 0, data = [8],
                 chunk_context = None\<rparr>]\<rparr>
   = \<lparr>endArrived = False, lastUpdate = 1, messageLength = None,
      chunks = [\<lparr>isEndOfMessage = False, chunk_id = 7, serial = 0, data = [8],
                 chunk_context = None\<rparr>]\<rparr>
   \<and> add (ArrayBuffer [0, 0, 0, 0, 7, 0, 0, 0, 0, 9]) (None :: unit option) 5
       \<lparr>chunks_map =
          [(7, \<lparr>endArrived = False, lastUpdate = 1, messageLength = None,
                chunks = [\<lparr>isEndOfMessage = False, chunk_id = 7, serial = 0, data = [8],
                           chunk_context = None\<rparr>]\<rparr>)],
        onMessage = True, calls = []\<rparr>
   = (None,
      \<lparr>chunks_map =
          [(7, \<lparr>endArrived = False, lastUpdate = 1, messageLength = None,
                chunks = [\<lparr>isEndOfMessage = False, chunk_id = 7, serial = 0, data = [8],
                           chunk_context = None\<rparr>]\<rparr>)],
        onMessage = True, calls = []\<rparr>)"
  using C7_duplicate_serial_noop
    [of "\<lparr>isEndOfMessage = False, chunk_id = 7, serial = 0, data = [8],
          chunk_context = None :: unit option\<rparr>"
        "\<lparr>endArrived = False, lastUpdate = 1, messageLength = None,
          chunks = [\<lparr>isEndOfMessage = False, chunk_id = 7, serial = 0, data = [8],
                     chunk_context = None\<rparr>]\<rparr>"
        "\<lparr>isEndOfMessage = False, chunk_id = 7, serial = 0, data = [9],
          chunk_context = None\<rparr>"
        5 "[]" "ArrayBuffer [0, 0, 0, 0, 7, 0, 0, 0, 0, 9]" None
        "\<lparr>chunks_map =
          [(7, \<lparr>endArrived = False, lastUpdate = 1, messageLength = None,
                chunks = [\<lparr>isEndOfMessage = False, chunk_id = 7, serial = 0, data = [8],
                           chunk_context = None\<rparr>]\<rparr>)],
          onMessage = True, calls = []\<rparr>"]
  by (simp add: new_Uint8ArrayChunk_eq big_endian_uint32_def)

section \<open>Routing of a parsed chunk\<close>

lemma add_single:
  assumes "createChunk buf ctx = Inr chunk"
    and "\<forall>c. map_of (chunks_map u) (chunk_id chunk) = Some c \<longrightarrow> \<not> hasSerial c (serial chunk)"
    and "isEndOfMessage chunk" and "serial chunk = 0"
  shows "add buf ctx now u =
           (None,
            u\<lparr>calls := (if onMessage u
                         then calls u @ [(data chunk, case ctx of None \<Rightarrow> [] | Some x \<Rightarrow> [x])]
                         else calls u),
              chunks_map := AList.delete (chunk_id chunk) (chunks_map u)\<rparr>)"
  using assms by (auto simp: add_def notifyListener_def Let_def split: option.splits)

lemma add_collect:
  assumes "createChunk buf ctx = Inr chunk"
    and "\<forall>c. map_of (chunks_map u) (chunk_id chunk) = Some c \<longrightarrow> \<not> hasSerial c (serial chunk)"
    and "\<not> (isEndOfMessage chunk \<and> serial chunk = 0)"
    and "collector = addChunk now chunk
                       (case map_of (chunks_map u) (chunk_id chunk) of
                          Some c \<Rightarrow> c | None \<Rightarrow> new_ChunkCollector now)"
  shows "add buf ctx now u =
           (if isComplete collector
            then (case merge collector of
                    (collector', Inl e) \<Rightarrow>
                      (Some e,
                       u\<lparr>chunks_map := AList.update (chunk_id chunk) collector' (chunks_map u)\<rparr>)
                  | (collector', Inr (message, ctxs)) \<Rightarrow>
                      (None,
                       u\<lparr>calls := (if onMessage u then calls u @ [(message, ctxs)] else calls u),
                         chunks_map := AList.delete (chunk_id chunk) (chunks_map u)\<rparr>))
            else (None,
                  u\<lparr>chunks_map := AList.update (chunk_id chunk) collector (chunks_map u)\<rparr>))"
proof -
  have dup: "(case map_of (chunks_map u) (chunk_id chunk) of
                None \<Rightarrow> False | Some c \<Rightarrow> hasSerial c (serial chunk)) = False"
    using assms(2) by (simp split: option.split)
  show ?thesis
    unfolding add_def assms(1) sum.case dup assms(4) [symmetric] Let_def
    using assms(3)
    by (auto simp: notifyListener_def AList.delete_update_same split: prod.splits sum.splits)
qed

lemma chunks_addChunk_new:
  assumes "\<forall>c. m = Some c \<longrightarrow> \<not> hasSerial c (serial chunk)"
  shows "chunks (addChunk now chunk (case m of Some c \<Rightarrow> c | None \<Rightarrow> new_ChunkCollector now))
           = (case m of Some c \<Rightarrow> chunks c | None \<Rightarrow> []) @ [chunk]"
  using assms
  by (cases m) (simp_all add: chunks_addChunk hasSerial_def new_ChunkCollector_def)

section \<open>Single-chunk messages\<close>

text \<open>
  C9. When the collector registered for the id of a single-chunk message (serial 0,
  end-of-message flag set) already stores a chunk with serial 0, \<^verbatim>\<open>add\<close> takes the
  duplicate exit, which comes before the single-chunk path: the promise resolves, the
  listener is not invoked, and the registry, the stored collector included, is unchanged.
\<close>

theorem C9_duplicate_check_precedes_fast_path:
  assumes "createChunk buf ctx = Inr chunk"
    and "serial chunk = 0" and "isEndOfMessage chunk"
    and "map_of (chunks_map u) (chunk_id chunk) = Some c"
    and "stored \<in> set (chunks c)" and "serial stored = 0"
  shows "add buf ctx now u = (None, u)
       \<and> calls (snd (add buf ctx now u)) = calls u
       \<and> chunks_map (snd (add buf ctx now u)) = chunks_map u
       \<and> map_of (chunks_map (snd (add buf ctx now u))) (chunk_id chunk) = Some c"
proof -
  from assms(2,5,6) have "hasSerial c (serial chunk)"
    by (force simp: hasSerial_iff)
  with assms(1,4) have "add buf ctx now u = (None, u)"
    by (rule add_duplicate)
  with assms(4) show ?thesis by simp
qed

theorem C9_duplicate_check_precedes_fast_path_witness:
  "add (ArrayBuffer [1, 0, 0, 0, 7, 0, 0, 0, 0, 9]) (Some True) 5
       \<lparr>chunks_map =
          [(7, \<lparr>endArrived = False, lastUpdate = 1, messageLength = None,
                chunks = [\<lparr>isEndOfMessage = False, chunk_id = 7, serial = 0, data = [8],
                           chunk_context = None\<rparr>]\<rparr>)],
        onMessage = True, calls = []\<rparr>
   = (None,
      \<lparr>chunks_map =
          [(7, \<lparr>endArrived = False, lastUpdate = 1, messageLength = None,
                chunks = [\<lparr>isEndOfMessage = False, chunk_id = 7, serial = 0, data = [8],
                           chunk_context = None\<rparr>]\<rparr>)],
        onMessage = True, calls = []\<rparr>)"
  using C9_duplicate_check_precedes_fast_path
    [of "ArrayBuffer [1, 0, 0, 0, 7, 0, 0, 0, 0, 9]" "Some True"
        "\<lparr>isEndOfMessage = True, chunk_id = 7, serial = 0, data = [9],
          chunk_context = Some True\<rparr>"
        "\<lparr>chunks_map =
          [(7, \<lparr>endArrived = False, lastUpdate = 1, messageLength = None,
                chunks = [\<lparr>isEndOfMessage = False, chunk_id = 7, serial = 0, data = [8],
                           chunk_context = None\<rparr>]\<rparr>)],
          onMessage = True, calls = []\<rparr>"
        "\<lparr>endArrived = False, lastUpdate = 1, messageLength = None,
          chunks = [\<lparr>isEndOfMessage = False, chunk_id = 7, serial = 0, data = [8],
                     chunk_context = None\<rparr>]\<rparr>"
        "\<lparr>isEndOfMessage = False, chunk_id = 7, serial = 0, data = [8],
          chunk_context = None\<rparr>" 5]
  by (simp add: new_Uint8ArrayChunk_eq big_endian_uint32_def)

text \<open>
  C5. An \<^verbatim>\<open>add\<close> call whose chunk has serial 0 and the end-of-message flag, and which
  is not a duplicate (no collector for the id, or one without serial 0): the promise
  resolves; a registered listener is invoked once, with the payload of the chunk and the
  context list \<open>[x]\<close> for a context \<open>x\<close> and \<open>[]\<close> for none; any entry of the id is
  deleted from the registry and none is created, so that the registry has no entry for the
  id afterwards, no more entries than before, and every other entry as before.
\<close>

theorem C5_single_chunk_fast_path:
  assumes "createChunk buf ctx = Inr chunk"
    and "serial chunk = 0" and "isEndOfMessage chunk"
    and "\<forall>c. map_of (chunks_map u) (chunk_id chunk) = Some c \<longrightarrow> \<not> hasSerial c 0"
  shows "add buf ctx now u =
           (None,
            u\<lparr>calls := (if onMessage u
                         then calls u @ [(data chunk, case ctx of None \<Rightarrow> [] | Some x \<Rightarrow> [x])]
                         else calls u),
              chunks_map := AList.delete (chunk_id chunk) (chunks_map u)\<rparr>)
       \<and> map_of (chunks_map (snd (add buf ctx now u))) (chunk_id chunk) = None
       \<and> length (chunks_map (snd (add buf ctx now u))) \<le> length (chunks_map u)
       \<and> (\<forall>k. k \<noteq> chunk_id chunk \<longrightarrow>
             map_of (chunks_map (snd (add buf ctx now u))) k = map_of (chunks_map u) k)"
proof -
  from assms(2,4)
  have nodup: "\<forall>c. map_of (chunks_map u) (chunk_id chunk) = Some c
                  \<longrightarrow> \<not> hasSerial c (serial chunk)"
    by simp
  have "add buf ctx now u =
           (None,
            u\<lparr>calls := (if onMessage u
                         then calls u @ [(data chunk, case ctx of None \<Rightarrow> [] | Some x \<Rightarrow> [x])]
                         else calls u),
              chunks_map := AList.delete (chunk_id chunk) (chunks_map u)\<rparr>)"
    using assms(1) nodup assms(3) assms(2) by (rule add_single)
  then show ?thesis
    by (simp add: AList.delete_conv' AList.length_delete_le)
qed

theorem C5_single_chunk_fast_path_witness:
  "add (ArrayBuffer [1, 0, 0, 0, 7, 0, 0, 0, 0, 9]) (Some True) 5
       \<lparr>chunks_map =
          [(7, \<lparr>endArrived = False, lastUpdate = 1, messageLength = None,
                chunks = [\<lparr>isEndOfMessage = False, chunk_id = 7, serial = 3, data = [8],
                           chunk_context = None\<rparr>]\<rparr>)],
        onMessage = True, calls = []\<rparr>
   = (None, \<lparr>chunks_map = [], onMessage = True, calls = [([9], [True])]\<rparr>)"
  using C5_single_chunk_fast_path
    [of "ArrayBuffer [1, 0, 0, 0, 7, 0, 0, 0, 0, 9]" "Some True"
        "\<lparr>isEndOfMessage = True, chunk_id = 7, serial = 0, data = [9],
          chunk_context = Some True\<rparr>"
        "\<lparr>chunks_map =
          [(7, \<lparr>endArrived = False, lastUpdate = 1, messageLength = None,
                chunks = [\<lparr>isEndOfMessage = False, chunk_id = 7, serial = 3, data = [8],
                           chunk_context = None\<rparr>]\<rparr>)],
          onMessage = True, calls = []\<rparr>" 5]
  by (simp add: new_Uint8ArrayChunk_eq big_endian_uint32_def hasSerial_def)

section \<open>Merge failure\<close>

text \<open>
  C3, as the code has it. An \<^verbatim>\<open>add\<close> call that is neither a duplicate nor a
  single-chunk message, whose chunk completes the collector of its id while some stored
  payload is longer than the payload of the chunk of lowest serial: \<^verbatim>\<open>merge\<close> raises
  \<open>ChunkTooLarge\<close>, which rejects the promise of \<^verbatim>\<open>add\<close>; the listener is not invoked;
  and the statement that deletes the registry entry is not reached, so when the call returns
  the registry still maps the id to the completed collector, with its chunks sorted by
  serial. This is the state the call leaves; later calls may change the entry.
\<close>

theorem C3_merge_failure_keeps_entry:
  assumes "createChunk buf ctx = Inr chunk"
    and "\<forall>c. map_of (chunks_map u) (chunk_id chunk) = Some c \<longrightarrow> \<not> hasSerial c (serial chunk)"
    and "\<not> (isEndOfMessage chunk \<and> serial chunk = 0)"
    and "collector = addChunk now chunk
                       (case map_of (chunks_map u) (chunk_id chunk) of
                          Some c \<Rightarrow> c | None \<Rightarrow> new_ChunkCollector now)"
    and "isComplete collector"
    and "large \<in> set (chunks collector)"
    and "length (data (hd (sort_key serial (chunks collector)))) < length (data large)"
  shows "snd (merge collector) = Inl ChunkTooLarge
       \<and> add buf ctx now u =
           (Some ChunkTooLarge,
            u\<lparr>chunks_map :=
                 AList.update (chunk_id chunk)
                   (collector\<lparr>chunks := sort_key serial (chunks collector)\<rparr>) (chunks_map u)\<rparr>)
       \<and> calls (snd (add buf ctx now u)) = calls u
       \<and> map_of (chunks_map (snd (add buf ctx now u))) (chunk_id chunk)
           = Some (collector\<lparr>chunks := sort_key serial (chunks collector)\<rparr>)"
proof -
  from assms(6) have ne: "chunks collector \<noteq> []" by auto
  from assms(6,7)
  have "\<not> (\<forall>ch\<in>set (chunks collector).
             length (data ch) \<le> length (data (hd (sort_key serial (chunks collector)))))"
    by (auto simp: not_le)
  then have m: "merge collector =
                  (collector\<lparr>chunks := sort_key serial (chunks collector)\<rparr>, Inl ChunkTooLarge)"
    unfolding merge_eq [OF assms(5) ne] by simp
  have a: "add buf ctx now u =
           (Some ChunkTooLarge,
            u\<lparr>chunks_map :=
                 AList.update (chunk_id chunk)
                   (collector\<lparr>chunks := sort_key serial (chunks collector)\<rparr>) (chunks_map u)\<rparr>)"
    unfolding add_collect [OF assms(1-4)] using assms(5) by (simp add: m)
  show ?thesis
    unfolding a by (simp add: m AList.update_conv')
qed

theorem C3_merge_failure_keeps_entry_witness:
  "add (ArrayBuffer [1, 0, 0, 0, 7, 0, 0, 0, 1, 2, 3]) (None :: unit option) 2
       \<lparr>chunks_map =
          [(7, \<lparr>endArrived = False, lastUpdate = 1, messageLength = None,
                chunks = [\<lparr>isEndOfMessage = False, chunk_id = 7, serial = 0, data = [1],
                           chunk_context = None\<rparr>]\<rparr>)],
        onMessage = True, calls = []\<rparr>
   = (Some ChunkTooLarge,
      \<lparr>chunks_map =
          [(7, \<lparr>endArrived = True, lastUpdate = 2, messageLength = Some 2,
                chunks = [\<lparr>isEndOfMessage = False, chunk_id = 7, serial = 0, data = [1],
                           chunk_context = None\<rparr>,
                          \<lparr>isEndOfMessage = True, chunk_id = 7, serial = 1, data = [2, 3],
                           chunk_context = None\<rparr>]\<rparr>)],
        onMessage = True, calls = []\<rparr>)"
  using C3_merge_failure_keeps_entry
    [of "ArrayBuffer [1, 0, 0, 0, 7, 0, 0, 0, 1, 2, 3]" "None :: unit option"
        "\<lparr>isEndOfMessage = True, chunk_id = 7, serial = 1, data = [2, 3],
          chunk_context = None\<rparr>"
        "\<lparr>chunks_map =
          [(7, \<lparr>endArrived = False, lastUpdate = 1, messageLength = None,
                chunks = [\<lparr>isEndOfMessage = False, chunk_id = 7, serial = 0, data = [1],
                           chunk_context = None\<rparr>]\<rparr>)],
          onMessage = True, calls = []\<rparr>"
        "\<lparr>endArrived = True, lastUpdate = 2, messageLength = Some 2,
          chunks = [\<lparr>isEndOfMessage = False, chunk_id = 7, serial = 0, data = [1],
                     chunk_context = None\<rparr>,
                    \<lparr>isEndOfMessage = True, chunk_id = 7, serial = 1, data = [2, 3],
                     chunk_context = None\<rparr>]\<rparr>"
        2
        "\<lparr>isEndOfMessage = True, chunk_id = 7, serial = 1, data = [2, 3],
          chunk_context = None\<rparr>"]
  by (simp add: new_Uint8ArrayChunk_eq big_endian_uint32_def hasSerial_def addChunk_def
      isComplete_def Let_def)

text \<open>
  The claim as the spec words it (the registry entry is removed all the same) fails: after
  serial 0 with a 1-byte payload, the end-of-message chunk of serial 1 with a 2-byte
  payload completes the message, the call is rejected with \<open>ChunkTooLarge\<close>, and the
  registry still maps the id to the collector.
\<close>

theorem C3_entry_removed_counterexample:
  "fst (add (ArrayBuffer [1, 0, 0, 0, 7, 0, 0, 0, 1, 2, 3]) (None :: unit option) 2
         \<lparr>chunks_map =
            [(7, \<lparr>endArrived = False, lastUpdate = 1, messageLength = None,
                  chunks = [\<lparr>isEndOfMessage = False, chunk_id = 7, serial = 0, data = [1],
                             chunk_context = None\<rparr>]\<rparr>)],
          onMessage = True, calls = []\<rparr>) = Some ChunkTooLarge
   \<and> map_of (chunks_map (snd
         (add (ArrayBuffer [1, 0, 0, 0, 7, 0, 0, 0, 1, 2, 3]) (None :: unit option) 2
           \<lparr>chunks_map =
              [(7, \<lparr>endArrived = False, lastUpdate = 1, messageLength = None,
                    chunks = [\<lparr>isEndOfMessage = False, chunk_id = 7, serial = 0, data = [1],
                               chunk_context = None\<rparr>]\<rparr>)],
            onMessage = True, calls = []\<rparr>))) 7 \<noteq> None"
  by (simp add: add_def new_Uint8ArrayChunk_eq big_endian_uint32_def hasSerial_def addChunk_def
      isComplete_def merge_def mergeChunks_def typedArraySet_def Let_def)

section \<open>Garbage collection\<close>

lemma delete_as_filter: "AList.delete k m = filter (\<lambda>e. fst e \<noteq> k) m"
  by (induction m) auto

lemma gc_loop_eq:
  "gc_loop maxAge now es (removedItems, m) =
     (removedItems + sum_list (map (chunkCount \<circ> snd)
                       (filter (\<lambda>e. isOlderThan maxAge now (snd e)) es)),
      filter (\<lambda>e. fst e \<notin> fst ` set (filter (\<lambda>e. isOlderThan maxAge now (snd e)) es)) m)"
proof (induction es arbitrary: removedItems m)
  case Nil
  then show ?case by simp
next
  case (Cons e es)
  obtain msgId collector where e: "e = (msgId, collector)" by (cases e)
  show ?case
  proof (cases "isOlderThan maxAge now collector")
    case True
    then show ?thesis
      unfolding e by (simp add: Cons.IH delete_as_filter conj_commute)
  next
    case False
    then show ?thesis
      unfolding e by (simp add: Cons.IH)
  qed
qed

lemma removed_keys_distinct:
  assumes "distinct (map fst m)"
  shows "filter (\<lambda>e. fst e \<notin> fst ` set (filter (\<lambda>e. P (snd e)) m)) m
           = filter (\<lambda>e. \<not> P (snd e)) m"
proof (rule filter_cong [OF refl])
  fix e assume e: "e \<in> set m"
  show "(fst e \<notin> fst ` set (filter (\<lambda>e. P (snd e)) m)) = (\<not> P (snd e))"
  proof
    assume "fst e \<notin> fst ` set (filter (\<lambda>e. P (snd e)) m)"
    with e show "\<not> P (snd e)" by force
  next
    assume n: "\<not> P (snd e)"
    show "fst e \<notin> fst ` set (filter (\<lambda>e. P (snd e)) m)"
    proof
      assume "fst e \<in> fst ` set (filter (\<lambda>e. P (snd e)) m)"
      then obtain e' where e': "e' \<in> set m" "P (snd e')" "fst e' = fst e" by auto
      from assms e e'(1,3) have "e' = e"
        by (metis eq_key_imp_eq_value prod.collapse)
      with n e'(2) show False by simp
    qed
  qed
qed

text \<open>
  C6. On a registry whose keys are distinct (as the keys of a \<^verbatim>\<open>Map\<close> are),
  \<^verbatim>\<open>gc\<close> keeps, in order and unchanged, exactly the entries whose collector is not older
  than \<open>maxAge\<close>, removes all the others, and returns the sum of the chunk counts of the
  removed ones; nothing else of the unchunker changes. A collector is older than \<open>maxAge\<close>
  when \<open>now - lastUpdate\<close> exceeds it, and \<open>lastUpdate\<close> is the time of the last
  \<^verbatim>\<open>addChunk\<close> that accepted a chunk.
\<close>

theorem C6_gc_removes_exactly_old_entries:
  fixes u :: "'ctx unchunker" and c :: "'ctx collector"
  assumes "distinct (map fst (chunks_map u))"
  shows "gc maxAge now u =
           (sum_list (map (\<lambda>e. length (chunks (snd e)))
                       (filter (\<lambda>e. maxAge < now - lastUpdate (snd e)) (chunks_map u))),
            u\<lparr>chunks_map := filter (\<lambda>e. \<not> maxAge < now - lastUpdate (snd e)) (chunks_map u)\<rparr>)
       \<and> (\<forall>k c. map_of (chunks_map (snd (gc maxAge now u))) k = Some c \<longleftrightarrow>
             map_of (chunks_map u) k = Some c \<and> \<not> isOlderThan maxAge now c)
       \<and> isOlderThan maxAge now c = (maxAge < now - lastUpdate c)
       \<and> (\<not> hasSerial c (serial chunk) \<longrightarrow> lastUpdate (addChunk t chunk c) = t)
       \<and> (hasSerial c (serial chunk) \<longrightarrow> lastUpdate (addChunk t chunk c) = lastUpdate c)"
proof -
  have old: "\<And>c :: 'ctx collector. isOlderThan maxAge now c = (maxAge < now - lastUpdate c)"
    by (simp add: isOlderThan_def Let_def)
  have g: "gc maxAge now u =
           (sum_list (map (\<lambda>e. length (chunks (snd e)))
                       (filter (\<lambda>e. maxAge < now - lastUpdate (snd e)) (chunks_map u))),
            u\<lparr>chunks_map := filter (\<lambda>e. \<not> maxAge < now - lastUpdate (snd e)) (chunks_map u)\<rparr>)"
    unfolding gc_def gc_loop_eq removed_keys_distinct [OF assms]
    by (simp add: old chunkCount_def comp_def)
  have m: "map_of (filter (\<lambda>e. \<not> maxAge < now - lastUpdate (snd e)) (chunks_map u)) k = Some c
             \<longleftrightarrow> map_of (chunks_map u) k = Some c \<and> \<not> isOlderThan maxAge now c" for k c
  proof -
    have "map_of (filter (\<lambda>e. \<not> maxAge < now - lastUpdate (snd e)) (chunks_map u)) k = Some c
            \<longleftrightarrow> (k, c) \<in> set (filter (\<lambda>e. \<not> maxAge < now - lastUpdate (snd e)) (chunks_map u))"
      using assms by (intro map_of_eq_Some_iff) (simp add: distinct_map_filter)
    also have "\<dots> \<longleftrightarrow> (k, c) \<in> set (chunks_map u) \<and> \<not> isOlderThan maxAge now c"
      by (auto simp: old)
    also have "\<dots> \<longleftrightarrow> map_of (chunks_map u) k = Some c \<and> \<not> isOlderThan maxAge now c"
      using assms by simp
    finally show ?thesis .
  qed
  show ?thesis
    unfolding g by (simp add: m old lastUpdate_addChunk)
qed

theorem C6_gc_removes_exactly_old_entries_witness:
  "gc 10 100
     \<lparr>chunks_map =
        [(7, \<lparr>endArrived = False, lastUpdate = 89, messageLength = None,
              chunks = [\<lparr>isEndOfMessage = False, chunk_id = 7, serial = 0, data = [8],
                         chunk_context = None :: unit option\<rparr>,
                        \<lparr>isEndOfMessage = False, chunk_id = 7, serial = 1, data = [8],
                         chunk_context = None\<rparr>]\<rparr>),
         (8, \<lparr>endArrived = False, lastUpdate = 90, messageLength = None,
              chunks = [\<lparr>isEndOfMessage = False, chunk_id = 8, serial = 0, data = [8],
                         chunk_context = None\<rparr>]\<rparr>),
         (9, \<lparr>endArrived = True, lastUpdate = 5, messageLength = Some 4,
              chunks = [\<lparr>isEndOfMessage = True, chunk_id = 9, serial = 3, data = [8],
                         chunk_context = None\<rparr>]\<rparr>)],
      onMessage = True, calls = []\<rparr>
   = (3,
      \<lparr>chunks_map =
        [(8, \<lparr>endArrived = False, lastUpdate = 90, messageLength = None,
              chunks = [\<lparr>isEndOfMessage = False, chunk_id = 8, serial = 0, data = [8],
                         chunk_context = None\<rparr>]\<rparr>)],
      onMessage = True, calls = []\<rparr>)"
proof -
  have d: "distinct (map fst (chunks_map
     \<lparr>chunks_map =
        [(7 :: nat, \<lparr>endArrived = False, lastUpdate = 89, messageLength = None,
              chunks = [\<lparr>isEndOfMessage = False, chunk_id = 7, serial = 0, data = [8],
                         chunk_context = None :: unit option\<rparr>,
                        \<lparr>isEndOfMessage = False, chunk_id = 7, serial = 1, data = [8],
                         chunk_context = None\<rparr>]\<rparr>),
         (8, \<lparr>endArrived = False, lastUpdate = 90, messageLength = None,
              chunks = [\<lparr>isEndOfMessage = False, chunk_id = 8, serial = 0, data = [8],
                         chunk_context = None\<rparr>]\<rparr>),
         (9, \<lparr>endArrived = True, lastUpdate = 5, messageLength = Some 4,
              chunks = [\<lparr>isEndOfMessage = True, chunk_id = 9, serial = 3, data = [8],
                         chunk_context = None\<rparr>]\<rparr>)],
      onMessage = True, calls = []\<rparr>))"
    by simp
  show ?thesis
    using C6_gc_removes_exactly_old_entries [OF d, of 10 100] by simp
qed

section \<open>Merge in serial order\<close>

lemma createChunk_header_payload:
  "createChunk (ArrayBuffer ([b0, i3, i2, i1, i0, s3, s2, s1, s0] @ p)) ctx =
     Inr \<lparr>isEndOfMessage = bit b0 0,
          chunk_id = unat i3 * 2 ^ 24 + unat i2 * 2 ^ 16 + unat i1 * 2 ^ 8 + unat i0,
          serial = unat s3 * 2 ^ 24 + unat s2 * 2 ^ 16 + unat s1 * 2 ^ 8 + unat s0,
          data = p, chunk_context = ctx\<rparr>"
  by (simp add: new_Uint8ArrayChunk_eq big_endian_uint32_def)

lemma scenario_4_4_2:
  assumes "length p0 = 4" "length p1 = 4" "length p2 = 2"
  shows "add_all
         [(ArrayBuffer ([1, 0, 0, 0, 7, 0, 0, 0, 2] @ p2), x2, t2),
          (ArrayBuffer ([0, 0, 0, 0, 7, 0, 0, 0, 0] @ p0), x0, t0),
          (ArrayBuffer ([0, 0, 0, 0, 7, 0, 0, 0, 1] @ p1), x1, t1)]
         \<lparr>chunks_map = [], onMessage = True, calls = []\<rparr>
       = ([None, None, None],
          \<lparr>chunks_map = [], onMessage = True,
           calls = [(p0 @ p1 @ p2, List.map_filter (\<lambda>x. x) [x0, x1, x2])]\<rparr>)"
proof -
  let ?c2 = "\<lparr>isEndOfMessage = True, chunk_id = 7, serial = 2, data = p2, chunk_context = x2\<rparr>"
  let ?c0 = "\<lparr>isEndOfMessage = False, chunk_id = 7, serial = 0, data = p0, chunk_context = x0\<rparr>"
  let ?c1 = "\<lparr>isEndOfMessage = False, chunk_id = 7, serial = 1, data = p1, chunk_context = x1\<rparr>"
  let ?u0 = "\<lparr>chunks_map = [], onMessage = True, calls = []\<rparr> :: 'a unchunker"
  let ?k1 = "\<lparr>endArrived = True, lastUpdate = t2, messageLength = Some 3, chunks = [?c2]\<rparr>"
  let ?k2 = "\<lparr>endArrived = True, lastUpdate = t0, messageLength = Some 3, chunks = [?c2, ?c0]\<rparr>"
  let ?k3 = "\<lparr>endArrived = True, lastUpdate = t1, messageLength = Some 3,
              chunks = [?c2, ?c0, ?c1]\<rparr>"
  have p2: "createChunk (ArrayBuffer ([1, 0, 0, 0, 7, 0, 0, 0, 2] @ p2)) x2 = Inr ?c2"
    and p0: "createChunk (ArrayBuffer ([0, 0, 0, 0, 7, 0, 0, 0, 0] @ p0)) x0 = Inr ?c0"
    and p1: "createChunk (ArrayBuffer ([0, 0, 0, 0, 7, 0, 0, 0, 1] @ p1)) x1 = Inr ?c1"
    unfolding createChunk_header_payload by simp_all
  have s1: "add (ArrayBuffer ([1, 0, 0, 0, 7, 0, 0, 0, 2] @ p2)) x2 t2 ?u0
              = (None, ?u0\<lparr>chunks_map := [(7, ?k1)]\<rparr>)"
    unfolding add_def p2
    by (simp add: addChunk_def hasSerial_def new_ChunkCollector_def isComplete_def Let_def)
  have s2: "add (ArrayBuffer ([0, 0, 0, 0, 7, 0, 0, 0, 0] @ p0)) x0 t0 (?u0\<lparr>chunks_map := [(7, ?k1)]\<rparr>)
              = (None, ?u0\<lparr>chunks_map := [(7, ?k2)]\<rparr>)"
    unfolding add_def p0
    by (simp add: addChunk_def hasSerial_def isComplete_def Let_def)
  have k3: "isComplete ?k3" by (simp add: isComplete_def)
  have ne: "chunks ?k3 \<noteq> []" by simp
  have m: "merge ?k3 = (?k3\<lparr>chunks := [?c0, ?c1, ?c2]\<rparr>,
                        Inr (p0 @ p1 @ p2, List.map_filter (\<lambda>x. x) [x0, x1, x2]))"
    unfolding merge_eq [OF k3 ne] using assms
    by (simp add: map_filter_simps split: option.split)
  have s3: "add (ArrayBuffer ([0, 0, 0, 0, 7, 0, 0, 0, 1] @ p1)) x1 t1 (?u0\<lparr>chunks_map := [(7, ?k2)]\<rparr>)
              = (None, ?u0\<lparr>calls := [(p0 @ p1 @ p2, List.map_filter (\<lambda>x. x) [x0, x1, x2])]\<rparr>)"
    unfolding add_def p1
    by (simp add: addChunk_def hasSerial_def isComplete_def Let_def m notifyListener_def
        del: One_nat_def)
  show ?thesis
    unfolding add_all.simps s1 s2 s3 prod.case by simp
qed

lemma hd_sort_key_least:
  assumes "xs \<noteq> []"
  shows "hd (sort_key f xs) \<in> set xs \<and> (\<forall>x\<in>set xs. f (hd (sort_key f xs)) \<le> f x)"
proof -
  have s: "set (sort_key f xs) = set xs" by simp
  with assms obtain y ys where ys: "sort_key f xs = y # ys"
    by (cases "sort_key f xs") auto
  have "sorted (map f (sort_key f xs))" by (rule sorted_sort_key)
  then have "\<forall>z\<in>set ys. f y \<le> f z" by (simp add: ys)
  then have "\<forall>z\<in>set (y # ys). f y \<le> f z" by simp
  then have "\<forall>z\<in>set xs. f y \<le> f z" unfolding ys [symmetric] s .
  moreover have "y \<in> set xs" unfolding s [symmetric] ys by simp
  ultimately show ?thesis by (simp add: ys)
qed

lemma length_concat_sort_key:
  "length (concat (map data (sort_key serial xs))) = sum_list (map (\<lambda>ch. length (data ch)) xs)"
proof -
  have "length (concat (map data (sort_key serial xs)))
          = sum_list (map (\<lambda>ch. length (data ch)) (sort_key serial xs))"
    by (simp add: length_concat comp_def)
  also have "\<dots> = sum_mset (image_mset (\<lambda>ch. length (data ch)) (mset (sort_key serial xs)))"
    by (simp flip: sum_mset_sum_list)
  also have "\<dots> = sum_list (map (\<lambda>ch. length (data ch)) xs)"
    by (simp flip: sum_mset_sum_list)
  finally show ?thesis .
qed

lemma merge_zero_is_largest:
  assumes "isComplete c" and "zero \<in> set (chunks c)" and "serial zero = 0"
    and "\<forall>z\<in>set (chunks c). serial z = 0 \<longrightarrow>
           (\<forall>ch\<in>set (chunks c). length (data ch) \<le> length (data z))"
  shows "merge c =
           (c\<lparr>chunks := sort_key serial (chunks c)\<rparr>,
            Inr (concat (map data (sort_key serial (chunks c))),
                 List.map_filter chunk_context (sort_key serial (chunks c))))"
proof -
  from assms(2) have ne: "chunks c \<noteq> []" by auto
  let ?h = "hd (sort_key serial (chunks c))"
  from hd_sort_key_least [OF ne, of serial]
  have h: "?h \<in> set (chunks c)" and least: "\<forall>x\<in>set (chunks c). serial ?h \<le> serial x"
    by simp_all
  from least assms(2,3) have "serial ?h = 0" by force
  with assms(4) h have "\<forall>ch\<in>set (chunks c). length (data ch) \<le> length (data ?h)"
    by blast
  then show ?thesis
    unfolding merge_eq [OF assms(1) ne] by simp
qed

text \<open>
  C2. A complete collector that stores a chunk with serial 0, none of whose payloads is
  longer than that chunk's: \<^verbatim>\<open>merge\<close> rearranges the stored chunks in ascending serial
  order and returns the concatenation of their payloads in that order, whose length is the
  sum of the payload lengths, with the contexts of the chunks that have one, in that order.
  And the scenario of the spec: for id 7 and payloads of 4, 4 and 2 bytes, the chunk of
  serial 2 (end-of-message flag set), then serial 0, then serial 1, given to a new unchunker
  with a listener: the three calls succeed and the listener is invoked once, with the 10
  bytes \<open>p0 @ p1 @ p2\<close> and the contexts present in serial order.
\<close>

theorem C2_merge_in_serial_order:
  fixes c :: "'ctx collector" and x0 x1 x2 :: "'ctx option"
  shows
  "(isComplete c \<and> (\<exists>z\<in>set (chunks c). serial z = 0)
      \<and> (\<forall>z\<in>set (chunks c). serial z = 0 \<longrightarrow>
            (\<forall>ch\<in>set (chunks c). length (data ch) \<le> length (data z)))
    \<longrightarrow> sorted (map serial (sort_key serial (chunks c)))
        \<and> mset (sort_key serial (chunks c)) = mset (chunks c)
        \<and> merge c =
            (c\<lparr>chunks := sort_key serial (chunks c)\<rparr>,
             Inr (concat (map data (sort_key serial (chunks c))),
                  List.map_filter chunk_context (sort_key serial (chunks c))))
        \<and> length (concat (map data (sort_key serial (chunks c))))
            = sum_list (map (\<lambda>ch. length (data ch)) (chunks c)))
   \<and> (length p0 = 4 \<and> length p1 = 4 \<and> length p2 = 2
    \<longrightarrow> add_all
          [(ArrayBuffer ([1, 0, 0, 0, 7, 0, 0, 0, 2] @ p2), x2, t2),
           (ArrayBuffer ([0, 0, 0, 0, 7, 0, 0, 0, 0] @ p0), x0, t0),
           (ArrayBuffer ([0, 0, 0, 0, 7, 0, 0, 0, 1] @ p1), x1, t1)]
          (new_Unchunker\<lparr>onMessage := True\<rparr>)
        = ([None, None, None],
           new_Unchunker
             \<lparr>onMessage := True,
              calls := [(p0 @ p1 @ p2, List.map_filter (\<lambda>x. x) [x0, x1, x2])]\<rparr>)
        \<and> length (p0 @ p1 @ p2) = 10)"
proof (intro conjI impI)
  assume a: "length p0 = 4 \<and> length p1 = 4 \<and> length p2 = 2"
  then show "length (p0 @ p1 @ p2) = 10" by simp
  from a show "add_all
          [(ArrayBuffer ([1, 0, 0, 0, 7, 0, 0, 0, 2] @ p2), x2, t2),
           (ArrayBuffer ([0, 0, 0, 0, 7, 0, 0, 0, 0] @ p0), x0, t0),
           (ArrayBuffer ([0, 0, 0, 0, 7, 0, 0, 0, 1] @ p1), x1, t1)]
          (new_Unchunker\<lparr>onMessage := True\<rparr>)
        = ([None, None, None],
           new_Unchunker
             \<lparr>onMessage := True,
              calls := [(p0 @ p1 @ p2, List.map_filter (\<lambda>x. x) [x0, x1, x2])]\<rparr>)"
    using scenario_4_4_2 [of p0 p1 p2 x2 t2 x0 t0 x1 t1] by (simp add: new_Unchunker_def)
next
  assume a: "isComplete c \<and> (\<exists>z\<in>set (chunks c). serial z = 0)
      \<and> (\<forall>z\<in>set (chunks c). serial z = 0 \<longrightarrow>
            (\<forall>ch\<in>set (chunks c). length (data ch) \<le> length (data z)))"
  then obtain zero where z: "zero \<in> set (chunks c)" "serial zero = 0" by blast
  from a z show "merge c =
            (c\<lparr>chunks := sort_key serial (chunks c)\<rparr>,
             Inr (concat (map data (sort_key serial (chunks c))),
                  List.map_filter chunk_context (sort_key serial (chunks c))))"
    by (intro merge_zero_is_largest [of c zero]) simp_all
qed (simp_all add: length_concat_sort_key)

theorem C2_merge_in_serial_order_witness:
  "merge \<lparr>endArrived = True, lastUpdate = 3, messageLength = Some 3,
          chunks = [\<lparr>isEndOfMessage = True, chunk_id = 7, serial = 2, data = [9, 10],
                     chunk_context = Some (2 :: nat)\<rparr>,
                    \<lparr>isEndOfMessage = False, chunk_id = 7, serial = 0, data = [1, 2, 3, 4],
                     chunk_context = None\<rparr>,
                    \<lparr>isEndOfMessage = False, chunk_id = 7, serial = 1, data = [5, 6, 7, 8],
                     chunk_context = Some 1\<rparr>]\<rparr>
   = (\<lparr>endArrived = True, lastUpdate = 3, messageLength = Some 3,
       chunks = [\<lparr>isEndOfMessage = False, chunk_id = 7, serial = 0, data = [1, 2, 3, 4],
                  chunk_context = None\<rparr>,
                 \<lparr>isEndOfMessage = False, chunk_id = 7, serial = 1, data = [5, 6, 7, 8],
                  chunk_context = Some 1\<rparr>,
                 \<lparr>isEndOfMessage = True, chunk_id = 7, serial = 2, data = [9, 10],
                  chunk_context = Some 2\<rparr>]\<rparr>,
      Inr ([1, 2, 3, 4, 5, 6, 7, 8, 9, 10], [1, 2]))
   \<and> add_all
        [(ArrayBuffer [1, 0, 0, 0, 7, 0, 0, 0, 2, 9, 10], Some 2, 1),
         (ArrayBuffer [0, 0, 0, 0, 7, 0, 0, 0, 0, 1, 2, 3, 4], None, 2),
         (ArrayBuffer [0, 0, 0, 0, 7, 0, 0, 0, 1, 5, 6, 7, 8], Some (1 :: nat), 3)]
        \<lparr>chunks_map = [], onMessage = True, calls = []\<rparr>
     = ([None, None, None],
        \<lparr>chunks_map = [], onMessage = True,
         calls = [([1, 2, 3, 4, 5, 6, 7, 8, 9, 10], [1, 2])]\<rparr>)"
  using C2_merge_in_serial_order
    [of "\<lparr>endArrived = True, lastUpdate = 3, messageLength = Some 3,
          chunks = [\<lparr>isEndOfMessage = True, chunk_id = 7, serial = 2, data = [9, 10],
                     chunk_context = Some (2 :: nat)\<rparr>,
                    \<lparr>isEndOfMessage = False, chunk_id = 7, serial = 0, data = [1, 2, 3, 4],
                     chunk_context = None\<rparr>,
                    \<lparr>isEndOfMessage = False, chunk_id = 7, serial = 1, data = [5, 6, 7, 8],
                     chunk_context = Some 1\<rparr>]\<rparr>"
        "[1, 2, 3, 4]" "[5, 6, 7, 8]" "[9, 10]" "Some 2" 1 None 2 "Some 1" 3]
  by (simp add: isComplete_def new_Unchunker_def map_filter_simps)

section \<open>Reassembly of one message\<close>

lemma serials_sorted_upt:
  assumes "distinct (map serial xs)" and "serial ` set xs = {0..<N}"
  shows "map serial (sort_key serial xs) = [0..<N]"
proof (rule sorted_distinct_set_unique)
  show "sorted (map serial (sort_key serial xs))" by (rule sorted_sort_key)
  have "mset (map serial (sort_key serial xs)) = mset (map serial xs)" by simp
  then show "distinct (map serial (sort_key serial xs))"
    using assms(1) by (metis mset_eq_imp_distinct_iff)
  show "sorted [0..<N]" by simp
  show "distinct [0..<N]" by simp
  show "set (map serial (sort_key serial xs)) = set [0..<N]"
    using assms(2) by simp
qed

lemma data_of_message:
  assumes "\<forall>ch\<in>set xs. chunk_of_message I N payload ch"
  shows "map data xs = map payload (map serial xs)"
  using assms by (induction xs) (auto simp: chunk_of_message_def)

lemma length_chunks_card:
  "distinct (map serial xs) \<Longrightarrow> length xs = card (serial ` set xs)"
  using distinct_card [of "map serial xs"] by simp

lemma collecting_new: "collecting I N payload {} (new_ChunkCollector now)"
  by (simp add: collecting_def new_ChunkCollector_def)

lemma collecting_addChunk:
  assumes "collecting I N payload S c" and "chunk_of_message I N payload ch"
    and "serial ch \<notin> S"
  shows "collecting I N payload (insert (serial ch) S) (addChunk now ch c)"
proof -
  from assms(1,3) have nd: "\<not> hasSerial c (serial ch)"
    by (simp add: hasSerial_iff collecting_def)
  from assms(2) have s: "serial ch < N" and e: "isEndOfMessage ch = (serial ch + 1 = N)"
    by (simp_all add: chunk_of_message_def)
  from s have last: "(serial ch + 1 = N) = (serial ch = N - 1)" by auto
  show ?thesis
    using assms nd s
    unfolding collecting_def
    by (auto simp: chunks_addChunk endArrived_addChunk messageLength_addChunk e last)
qed

lemma collecting_isComplete:
  assumes "collecting I N payload S c" and "S \<subseteq> {0..<N}" and "1 \<le> N"
  shows "isComplete c \<longleftrightarrow> S = {0..<N}"
proof
  assume "isComplete c"
  with assms(1) have "N - 1 \<in> S" and "length (chunks c) = N"
    by (auto simp: isComplete_def collecting_def split: if_splits)
  moreover from assms(1) have "length (chunks c) = card S"
    by (auto simp: collecting_def length_chunks_card)
  ultimately have "card S = card {0..<N}" by simp
  with assms(2) show "S = {0..<N}"
    by (intro card_subset_eq) simp_all
next
  assume full: "S = {0..<N}"
  with assms(3) have "N - 1 \<in> S" by auto
  moreover from assms(1) have "length (chunks c) = card S"
    by (auto simp: collecting_def length_chunks_card)
  ultimately show "isComplete c"
    using assms(1) full by (simp add: isComplete_def collecting_def)
qed

lemma collecting_merge:
  assumes "collecting I N payload {0..<N} c" and "1 \<le> N"
    and "\<forall>s<N. length (payload s) \<le> length (payload 0)"
  shows "\<exists>c' ctxs. merge c = (c', Inr (message_of N payload, ctxs))"
proof -
  from assms(1,2) have comp: "isComplete c"
    by (simp add: collecting_isComplete [of I N payload "{0..<N}" c])
  from assms(1) have ser: "serial ` set (chunks c) = {0..<N}"
    and dist: "distinct (map serial (chunks c))"
    and msg: "\<forall>ch\<in>set (chunks c). chunk_of_message I N payload ch"
    by (simp_all add: collecting_def)
  from assms(2) ser have "0 \<in> serial ` set (chunks c)" by auto
  then obtain zero where z: "zero \<in> set (chunks c)" "serial zero = 0" by auto
  have le: "\<forall>z\<in>set (chunks c). serial z = 0 \<longrightarrow>
              (\<forall>ch\<in>set (chunks c). length (data ch) \<le> length (data z))"
    using msg assms(3) by (auto simp: chunk_of_message_def)
  have msg': "\<forall>ch\<in>set (sort_key serial (chunks c)). chunk_of_message I N payload ch"
    using msg by simp
  have "concat (map data (sort_key serial (chunks c))) = message_of N payload"
    unfolding data_of_message [OF msg'] serials_sorted_upt [OF dist ser] message_of_def ..
  then show ?thesis
    unfolding merge_zero_is_largest [OF comp z le] by simp
qed

lemma related_add:
  assumes rel: "related I N payload u0 (S, k) u"
    and fresh: "map_of (chunks_map u0) I = None"
    and N: "1 \<le> N"
    and sizes: "\<forall>s<N. length (payload s) \<le> length (payload 0)"
    and inp: "input_of_message I N payload (buf, ctx, now)"
  shows "\<exists>u'. add buf ctx now u = (None, u')
            \<and> related I N payload u0
                (deliver_step N (input_serial (buf, ctx, now)) (S, k)) u'"
proof -
  from inp obtain ch where p: "createChunk buf ctx = Inr ch"
    and m: "chunk_of_message I N payload ch"
    by (auto simp: input_of_message_def split: sum.splits)
  let ?s = "serial ch"
  have ser: "input_serial (buf, ctx, now) = ?s"
    by (simp add: input_serial_def p)
  from m have id: "chunk_id ch = I" and sN: "?s < N"
    and e: "isEndOfMessage ch = (?s + 1 = N)" and d: "data ch = payload ?s"
    by (simp_all add: chunk_of_message_def)
  from rel have on: "onMessage u" and sub: "S \<subseteq> {0..<N}" and nf: "S \<noteq> {0..<N}"
    and reg: "if S = {} then chunks_map u = chunks_map u0
              else (\<exists>c. chunks_map u = AList.update I c (chunks_map u0)
                        \<and> collecting I N payload S c)"
    by (simp_all add: related_def)
  from rel obtain xs where xs: "calls u = calls u0 @ xs" "length xs = k"
    "\<forall>x\<in>set xs. fst x = message_of N payload"
    by (auto simp: related_def)
  from fresh have notin: "I \<notin> fst ` set (chunks_map u0)"
    by (simp add: map_of_eq_None_iff)
  define c0 where "c0 = (case map_of (chunks_map u) I of
                           Some c \<Rightarrow> c | None \<Rightarrow> new_ChunkCollector now)"
  have c0: "collecting I N payload S c0
          \<and> (\<forall>c. map_of (chunks_map u) I = Some c \<longrightarrow> c = c0)
          \<and> (\<forall>c'. AList.update I c' (chunks_map u) = AList.update I c' (chunks_map u0))
          \<and> AList.delete I (chunks_map u) = chunks_map u0"
  proof (cases "S = {}")
    case True
    with reg have "chunks_map u = chunks_map u0" by simp
    with True fresh notin show ?thesis
      by (simp add: c0_def collecting_new)
  next
    case False
    with reg obtain c where c: "chunks_map u = AList.update I c (chunks_map u0)"
      "collecting I N payload S c" by auto
    from c(1) have "map_of (chunks_map u) I = Some c"
      by (simp add: AList.update_conv')
    with c notin show ?thesis
      by (simp add: c0_def AList.delete_update_same)
  qed
  show ?thesis
  proof (cases "?s \<in> S")
    case True
    then have "S \<noteq> {}" by auto
    with reg obtain c where c: "chunks_map u = AList.update I c (chunks_map u0)"
      "collecting I N payload S c" by auto
    from c(1) have "map_of (chunks_map u) (chunk_id ch) = Some c"
      by (simp add: AList.update_conv' id)
    moreover from c(2) True have "hasSerial c ?s"
      by (simp add: hasSerial_iff collecting_def)
    ultimately have "add buf ctx now u = (None, u)"
      using p by (intro add_duplicate)
    with True rel show ?thesis
      by (simp add: ser deliver_step_def)
  next
    case False
    have nodup: "\<forall>c. map_of (chunks_map u) (chunk_id ch) = Some c
                    \<longrightarrow> \<not> hasSerial c (serial ch)"
    proof (intro allI impI)
      fix c assume "map_of (chunks_map u) (chunk_id ch) = Some c"
      with c0 id have "collecting I N payload S c" by auto
      with False show "\<not> hasSerial c (serial ch)"
        by (simp add: hasSerial_iff collecting_def)
    qed
    from sub sN have sub': "insert ?s S \<subseteq> {0..<N}" by simp
    show ?thesis
    proof (cases "N = 1")
      case True
      with sN have s0: "?s = 0" by simp
      from True e s0 have en: "isEndOfMessage ch" by simp
      from True sub nf have S: "S = {}" by auto
      have full: "insert ?s S = {0..<N}" using True s0 S by auto
      have msg: "data ch = message_of N payload"
        by (simp add: d s0 True message_of_def)
      have a: "add buf ctx now u =
                 (None,
                  u\<lparr>calls := calls u @ [(data ch, case ctx of None \<Rightarrow> [] | Some x \<Rightarrow> [x])],
                    chunks_map := chunks_map u0\<rparr>)"
        using add_single [OF p nodup en s0, of now] on c0 by (simp add: id)
      have "related I N payload u0 ({}, k + 1)
              (u\<lparr>calls := calls u @ [(data ch, case ctx of None \<Rightarrow> [] | Some x \<Rightarrow> [x])],
                 chunks_map := chunks_map u0\<rparr>)"
        using on xs N True by (auto simp: related_def msg)
      with a False full show ?thesis
        by (simp add: ser deliver_step_def)
    next
      case N1: False
      have notfast: "\<not> (isEndOfMessage ch \<and> serial ch = 0)"
        using e N1 by auto
      define col where "col = addChunk now ch c0"
      have col: "col = addChunk now ch
                         (case map_of (chunks_map u) (chunk_id ch) of
                            Some c \<Rightarrow> c | None \<Rightarrow> new_ChunkCollector now)"
        by (simp add: col_def c0_def id)
      from c0 m False have colS: "collecting I N payload (insert ?s S) col"
        unfolding col_def by (intro collecting_addChunk) simp_all
      have comp: "isComplete col \<longleftrightarrow> insert ?s S = {0..<N}"
        using colS sub' N by (rule collecting_isComplete)
      show ?thesis
      proof (cases "insert ?s S = {0..<N}")
        case True
        with colS have "collecting I N payload {0..<N} col" by simp
        from collecting_merge [OF this N sizes]
        obtain c' ctxs where mg: "merge col = (c', Inr (message_of N payload, ctxs))"
          by blast
        have a: "add buf ctx now u =
                   (None,
                    u\<lparr>calls := calls u @ [(message_of N payload, ctxs)],
                      chunks_map := chunks_map u0\<rparr>)"
          unfolding add_collect [OF p nodup notfast col]
          using comp True on c0 by (simp add: mg id)
        have "related I N payload u0 ({}, k + 1)
                (u\<lparr>calls := calls u @ [(message_of N payload, ctxs)],
                   chunks_map := chunks_map u0\<rparr>)"
          using on xs N by (auto simp: related_def)
        with a False True show ?thesis
          by (simp add: ser deliver_step_def)
      next
        case nfull: False
        have a: "add buf ctx now u =
                   (None, u\<lparr>chunks_map := AList.update I col (chunks_map u0)\<rparr>)"
          unfolding add_collect [OF p nodup notfast col]
          using comp nfull c0 by (simp add: id)
        have "related I N payload u0 (insert ?s S, k)
                (u\<lparr>chunks_map := AList.update I col (chunks_map u0)\<rparr>)"
          using on xs sub' nfull colS by (auto simp: related_def)
        with a False nfull show ?thesis
          by (simp add: ser deliver_step_def)
      qed
    qed
  qed
qed

lemma related_add_all:
  assumes fresh: "map_of (chunks_map u0) I = None"
    and N: "1 \<le> N"
    and sizes: "\<forall>s<N. length (payload s) \<le> length (payload 0)"
  shows "\<forall>inp\<in>set ins. input_of_message I N payload inp \<Longrightarrow>
         related I N payload u0 Sk u \<Longrightarrow>
         \<exists>u'. add_all ins u = (replicate (length ins) None, u')
             \<and> related I N payload u0 (fold (deliver_step N) (map input_serial ins) Sk) u'"
proof (induction ins arbitrary: Sk u)
  case Nil
  then show ?case by simp
next
  case (Cons inp ins)
  obtain buf ctx now where inp: "inp = (buf, ctx, now)" by (cases inp)
  obtain S k where Sk: "Sk = (S, k)" by (cases Sk)
  from Cons.prems(1) have i: "input_of_message I N payload (buf, ctx, now)"
    by (simp add: inp)
  from related_add [OF Cons.prems(2) [unfolded Sk] fresh N sizes i]
  obtain u1 where u1: "add buf ctx now u = (None, u1)"
    "related I N payload u0 (deliver_step N (input_serial (buf, ctx, now)) (S, k)) u1"
    by blast
  from Cons.prems(1) have rest: "\<forall>inp\<in>set ins. input_of_message I N payload inp"
    by simp
  from Cons.IH [OF rest u1(2)]
  obtain u' where u': "add_all ins u1 = (replicate (length ins) None, u')"
    "related I N payload u0
       (fold (deliver_step N) (map input_serial ins)
          (deliver_step N (input_serial (buf, ctx, now)) (S, k))) u'"
    by blast
  show ?case
    using u1(1) u' by (simp add: inp Sk)
qed

lemma fold_deliver_collects:
  assumes "S \<union> set ss \<subseteq> {0..<N}" and "S \<union> set ss \<noteq> {0..<N}"
  shows "fold (deliver_step N) ss (S, k) = (S \<union> set ss, k)"
  using assms
proof (induction ss arbitrary: S)
  case Nil
  then show ?case by simp
next
  case (Cons s ss)
  show ?case
  proof (cases "s \<in> S")
    case True
    then have eq: "S \<union> set (s # ss) = S \<union> set ss" by auto
    from True have "deliver_step N s (S, k) = (S, k)"
      by (simp add: deliver_step_def)
    then show ?thesis
      using Cons.IH [of S] Cons.prems unfolding eq by simp
  next
    case False
    from Cons.prems have "insert s S \<noteq> {0..<N}" by auto
    with False have st: "deliver_step N s (S, k) = (insert s S, k)"
      by (simp add: deliver_step_def)
    have eq: "S \<union> set (s # ss) = insert s S \<union> set ss" by auto
    show ?thesis
      using Cons.IH [of "insert s S"] Cons.prems unfolding eq by (simp add: st)
  qed
qed

lemma fold_deliver_once:
  assumes "set (pre @ [s]) = {0..<N}" and "s \<notin> set pre"
  shows "fold (deliver_step N) (pre @ [s]) ({}, k) = ({}, k + 1)"
proof -
  from assms have sub: "{} \<union> set pre \<subseteq> {0..<N}" and ne: "{} \<union> set pre \<noteq> {0..<N}"
    by auto
  have "fold (deliver_step N) pre ({}, k) = (set pre, k)"
    using fold_deliver_collects [OF sub ne, of k] by simp
  moreover from assms have "insert s (set pre) = {0..<N}" by simp
  ultimately show ?thesis
    using assms(2) by (simp add: deliver_step_def)
qed

lemma fold_deliver_count:
  "fold (deliver_step N) ss (S, k) = (S', k') \<Longrightarrow> k \<le> k' \<and> (k' = k \<longrightarrow> S' = S \<union> set ss)"
proof (induction ss arbitrary: S k)
  case Nil
  then show ?case by simp
next
  case (Cons s ss)
  obtain S1 k1 where st: "deliver_step N s (S, k) = (S1, k1)"
    by (cases "deliver_step N s (S, k)")
  from Cons.prems have f: "fold (deliver_step N) ss (S1, k1) = (S', k')"
    by (simp add: st)
  from Cons.IH [OF f] have ih: "k1 \<le> k'" "k' = k1 \<longrightarrow> S' = S1 \<union> set ss"
    by simp_all
  from st have "(k1 = k \<and> S1 = insert s S) \<or> k1 = k + 1"
    by (auto simp: deliver_step_def split: if_splits)
  with ih show ?case by auto
qed

lemma related_start:
  "onMessage u \<Longrightarrow> 1 \<le> N \<Longrightarrow> related I N payload u ({}, 0) u"
  by (auto simp: related_def)

lemma sizes_from_claim:
  fixes N :: nat
  assumes "\<forall>s. s + 1 < N \<longrightarrow> length (payload s) = L" and "length (payload (N - 1)) \<le> L"
  shows "\<forall>s<N. length (payload s) \<le> length (payload 0)"
proof (intro allI impI)
  fix s assume s: "s < N"
  show "length (payload s) \<le> length (payload 0)"
  proof (cases "N = 1")
    case True
    with s have "s = 0" by simp
    then show ?thesis by simp
  next
    case False
    with s have "0 + 1 < N" by simp
    with assms(1) have 0: "length (payload 0) = L" by blast
    show ?thesis
    proof (cases "s + 1 < N")
      case True
      with assms(1) 0 show ?thesis by simp
    next
      case False
      with s have "s = N - 1" by simp
      with assms(2) 0 show ?thesis by simp
    qed
  qed
qed

text \<open>
  C1, as the code has it. The \<open>N\<close> chunks of one message (id \<open>I\<close>, serials \<open>0\<close> to
  \<open>N - 1\<close>, end-of-message flag on serial \<open>N - 1\<close> only, payloads of one size \<open>L\<close> but for
  a last one that may be shorter), given to \<^verbatim>\<open>add\<close> in any order and with any
  repetitions, every serial at least once, starting from an unchunker with a listener and
  no collector for \<open>I\<close>: every call succeeds, the listener is invoked at least once, and
  every invocation carries the payloads concatenated in serial order. When the last call
  is the first to bring its serial (all repetitions come before the message completes),
  the listener is invoked exactly once and the registry ends as it started.
\<close>

theorem C1_reassembly_any_order:
  fixes u :: "'ctx unchunker" and ins :: "(raw \<times> 'ctx option \<times> int) list"
  assumes "1 \<le> N"
    and "\<forall>s. s + 1 < N \<longrightarrow> length (payload s) = L"
    and "length (payload (N - 1)) \<le> L"
    and "\<forall>inp\<in>set ins. input_of_message I N payload inp"
    and "input_serial ` set ins = {0..<N}"
    and "map_of (chunks_map u) I = None"
    and "onMessage u"
  shows "fst (add_all ins u) = replicate (length ins) None
       \<and> (\<exists>xs. calls (snd (add_all ins u)) = calls u @ xs
               \<and> xs \<noteq> []
               \<and> (\<forall>x\<in>set xs. fst x = concat (map payload [0..<N]))
               \<and> (input_serial (last ins) \<notin> input_serial ` set (butlast ins)
                    \<longrightarrow> length xs = 1))
       \<and> (input_serial (last ins) \<notin> input_serial ` set (butlast ins)
            \<longrightarrow> chunks_map (snd (add_all ins u)) = chunks_map u)"
proof -
  let ?ss = "map input_serial ins"
  have sizes: "\<forall>s<N. length (payload s) \<le> length (payload 0)"
    using assms(2,3) by (rule sizes_from_claim)
  obtain S' k' where f: "fold (deliver_step N) ?ss ({}, 0) = (S', k')"
    by (cases "fold (deliver_step N) ?ss ({}, 0)")
  from related_add_all [OF assms(6) assms(1) sizes assms(4) related_start [OF assms(7) assms(1)]]
  obtain u' where u': "add_all ins u = (replicate (length ins) None, u')"
    and rel: "related I N payload u (S', k') u'"
    unfolding f by blast
  from rel obtain xs where xs: "calls u' = calls u @ xs" "length xs = k'"
    "\<forall>x\<in>set xs. fst x = message_of N payload"
    by (auto simp: related_def)
  from rel have S': "S' \<noteq> {0..<N}"
    and reg: "if S' = {} then chunks_map u' = chunks_map u
              else (\<exists>c. chunks_map u' = AList.update I c (chunks_map u)
                        \<and> collecting I N payload S' c)"
    by (simp_all add: related_def)
  from assms(5) have cover: "set ?ss = {0..<N}" by simp
  have "k' \<noteq> 0"
  proof
    assume "k' = 0"
    with fold_deliver_count [OF f] have "S' = set ?ss" by simp
    with cover S' show False by simp
  qed
  with xs(2) have ne: "xs \<noteq> []" by auto
  have once: "k' = 1 \<and> S' = {}"
    if l: "input_serial (last ins) \<notin> input_serial ` set (butlast ins)"
  proof -
    from assms(1,5) have "ins \<noteq> []" by auto
    then have split: "ins = butlast ins @ [last ins]" by simp
    have "set (map input_serial (butlast ins) @ [input_serial (last ins)]) = {0..<N}"
      using cover by (subst (asm) split) simp
    moreover from l have "input_serial (last ins) \<notin> set (map input_serial (butlast ins))"
      by simp
    ultimately have "fold (deliver_step N)
                       (map input_serial (butlast ins) @ [input_serial (last ins)]) ({}, 0)
                     = ({}, 0 + 1)"
      by (rule fold_deliver_once)
    moreover have "?ss = map input_serial (butlast ins) @ [input_serial (last ins)]"
      by (subst split) simp
    ultimately show ?thesis using f by simp
  qed
  show ?thesis
    unfolding u' using xs ne once reg by (auto simp: message_of_def)
qed

theorem C1_reassembly_any_order_witness:
  "fst (add_all
         [(ArrayBuffer [1, 0, 0, 0, 7, 0, 0, 0, 2, 5], None, 1),
          (ArrayBuffer [0, 0, 0, 0, 7, 0, 0, 0, 0, 1, 2], Some True, 2),
          (ArrayBuffer [0, 0, 0, 0, 7, 0, 0, 0, 0, 1, 2], Some False, 3),
          (ArrayBuffer [0, 0, 0, 0, 7, 0, 0, 0, 1, 3, 4], None, 4)]
         \<lparr>chunks_map = [], onMessage = True, calls = []\<rparr>)
     = [None, None, None, None]
   \<and> map fst (calls (snd (add_all
         [(ArrayBuffer [1, 0, 0, 0, 7, 0, 0, 0, 2, 5], None, 1),
          (ArrayBuffer [0, 0, 0, 0, 7, 0, 0, 0, 0, 1, 2], Some True, 2),
          (ArrayBuffer [0, 0, 0, 0, 7, 0, 0, 0, 0, 1, 2], Some False, 3),
          (ArrayBuffer [0, 0, 0, 0, 7, 0, 0, 0, 1, 3, 4], None, 4)]
         \<lparr>chunks_map = [], onMessage = True, calls = []\<rparr>)))
     = [[1, 2, 3, 4, 5]]
   \<and> chunks_map (snd (add_all
         [(ArrayBuffer [1, 0, 0, 0, 7, 0, 0, 0, 2, 5], None, 1),
          (ArrayBuffer [0, 0, 0, 0, 7, 0, 0, 0, 0, 1, 2], Some True, 2),
          (ArrayBuffer [0, 0, 0, 0, 7, 0, 0, 0, 0, 1, 2], Some False, 3),
          (ArrayBuffer [0, 0, 0, 0, 7, 0, 0, 0, 1, 3, 4], None, 4)]
         \<lparr>chunks_map = [], onMessage = True, calls = []\<rparr>))
     = []"
proof -
  let ?payload = "\<lambda>s :: nat. if s = 0 then [1, 2] else if s = 1 then [3, 4] else [5 :: byte]"
  let ?ins = "[(ArrayBuffer [1, 0, 0, 0, 7, 0, 0, 0, 2, 5], None, 1),
               (ArrayBuffer [0, 0, 0, 0, 7, 0, 0, 0, 0, 1, 2], Some True, 2),
               (ArrayBuffer [0, 0, 0, 0, 7, 0, 0, 0, 0, 1, 2], Some False, 3),
               (ArrayBuffer [0, 0, 0, 0, 7, 0, 0, 0, 1, 3, 4], None, 4)]
              :: (raw \<times> bool option \<times> int) list"
  let ?u = "\<lparr>chunks_map = [], onMessage = True, calls = []\<rparr> :: bool unchunker"
  have h1: "(1 :: nat) \<le> 3" by simp
  have h2: "\<forall>s. s + 1 < (3 :: nat) \<longrightarrow> length (?payload s) = 2" by simp
  have h3: "length (?payload (3 - 1)) \<le> 2" by simp
  have h4: "\<forall>inp\<in>set ?ins. input_of_message 7 3 ?payload inp"
    by (simp add: input_of_message_def chunk_of_message_def new_Uint8ArrayChunk_eq
        big_endian_uint32_def)
  have h5: "input_serial ` set ?ins = {0..<3}"
    by (auto simp: input_serial_def new_Uint8ArrayChunk_eq big_endian_uint32_def)
  have h6: "map_of (chunks_map ?u) 7 = None" by simp
  have h7: "onMessage ?u" by simp
  have l: "input_serial (last ?ins) \<notin> input_serial ` set (butlast ?ins)"
    by (simp add: input_serial_def new_Uint8ArrayChunk_eq big_endian_uint32_def)
  have msg: "concat (map ?payload [0..<3]) = [1, 2, 3, 4, 5]"
    by (simp add: upt_rec)
  from C1_reassembly_any_order [OF h1 h2 h3 h4 h5 h6 h7] l
  obtain xs where r: "fst (add_all ?ins ?u) = replicate (length ?ins) None"
    "calls (snd (add_all ?ins ?u)) = calls ?u @ xs"
    "\<forall>x\<in>set xs. fst x = concat (map ?payload [0..<3])"
    "length xs = 1"
    "chunks_map (snd (add_all ?ins ?u)) = chunks_map ?u"
    by blast
  from r(4) obtain x where x: "xs = [x]"
    by (cases xs) auto
  from r(3) have "map fst xs = [[1, 2, 3, 4, 5]]"
    unfolding msg x by simp
  with r(1,2,5) show ?thesis by simp
qed

text \<open>
  The claim as the spec words it (exactly one invocation whatever the repetitions) fails:
  a message of two chunks, both given a second time after the message has been delivered,
  is delivered twice, since the collector is deleted on delivery and nothing remembers the
  id.
\<close>

theorem C1_exactly_once_counterexample:
  "calls (snd (add_all
      [(ArrayBuffer [0, 0, 0, 0, 7, 0, 0, 0, 0, 1], None :: unit option, 1),
       (ArrayBuffer [1, 0, 0, 0, 7, 0, 0, 0, 1, 2], None, 2),
       (ArrayBuffer [0, 0, 0, 0, 7, 0, 0, 0, 0, 1], None, 3),
       (ArrayBuffer [1, 0, 0, 0, 7, 0, 0, 0, 1, 2], None, 4)]
      \<lparr>chunks_map = [], onMessage = True, calls = []\<rparr>))
   = [([1, 2], []), ([1, 2], [])]"
  by (simp add: add_def new_Uint8ArrayChunk_eq big_endian_uint32_def hasSerial_def addChunk_def
      isComplete_def merge_def mergeChunks_def typedArraySet_def notifyListener_def
      new_ChunkCollector_def Let_def)

end
